theory Spec2Isabelle
  imports Complex_Main "HOL-Library.Word"
begin

section \<open>Word-level timing utilities of \<^verbatim>\<open>src/lib/word-timing.ts\<close>\<close>

text \<open>
  The module has four exported functions: \<^verbatim>\<open>estimateWordTimings\<close>,
  \<^verbatim>\<open>generateWordTimestamps\<close>, \<^verbatim>\<open>findActiveWord\<close> and \<^verbatim>\<open>cleanWord\<close>.
  Each is embedded below as a HOL function that follows the TypeScript line by line.

  Conventions of the embedding:
  \<^item> a JavaScript string is the list of its UTF-16 code units (\<open>16 word list\<close>), so
    \<^verbatim>\<open>s.length\<close> is \<open>length s\<close>;
  \<^item> a \<^verbatim>\<open>number\<close> holding a time is a \<open>real\<close>; NaN and the infinities of
    IEEE-754, as inputs and as the result of an overflow, are outside the model;
  \<^item> the estimator is embedded twice. \<open>estimateWordTimings\<close> computes with exact
    reals: it has the tokens, the indices and the control flow of the code, and serves
    for the properties that involve no arithmetic or hold whatever the rounding.
    \<open>estimateWordTimings64\<close> rounds the result of every operation to the nearest
    double, as the code does, and serves for the properties about durations and ends;
  \<^item> a \<^verbatim>\<open>number\<close> holding an array index (or the -1 of \<^verbatim>\<open>findIndex\<close>) is an \<open>int\<close>;
  \<^item> the mutable accumulators of the two \<^verbatim>\<open>forEach\<close> loops are passed explicitly.
\<close>

subsection \<open>Strings and the regular expression class \<^verbatim>\<open>\s\<close>\<close>

type_synonym jsstring = "16 word list"

text \<open>ASCII text as code units, for writing examples.\<close>

definition js :: "string \<Rightarrow> jsstring" where
  "js s = map (\<lambda>c. of_nat (of_char c)) s"

text \<open>
  The code units matched by \<^verbatim>\<open>\s\<close> (ECMAScript WhiteSpace and LineTerminator):
  TAB, LF, VT, FF, CR, SPACE, NBSP, U+1680, U+2000..U+200A, U+2028, U+2029, U+202F,
  U+205F, U+3000 and U+FEFF. \<^verbatim>\<open>String.prototype.trim\<close> removes the same set.
\<close>

definition isWhiteSpace :: "16 word \<Rightarrow> bool" where
  "isWhiteSpace c \<longleftrightarrow>
     c = 0x09 \<or> c = 0x0A \<or> c = 0x0B \<or> c = 0x0C \<or> c = 0x0D \<or> c = 0x20 \<or>
     c = 0xA0 \<or> c = 0x1680 \<or> (0x2000 \<le> c \<and> c \<le> 0x200A) \<or>
     c = 0x2028 \<or> c = 0x2029 \<or> c = 0x202F \<or> c = 0x205F \<or> c = 0x3000 \<or> c = 0xFEFF"

text \<open>
  \<^verbatim>\<open>text.split(/\s+/)\<close>: the pieces between maximal runs of whitespace. A run at the
  very start leaves an empty first piece, a run at the very end an empty last piece,
  and the empty string splits into one empty piece. A code unit that is no whitespace
  goes in front of the first piece of the rest; the rest always has a first piece
  (\<open>split_ws_nonempty\<close> below), so the case of no piece is never taken.
\<close>

function split_ws :: "jsstring \<Rightarrow> jsstring list" where
  "split_ws [] = [[]]"
| "split_ws (c # cs) =
     (if isWhiteSpace c then [] # split_ws (dropWhile isWhiteSpace cs)
      else (case split_ws cs of
              [] \<Rightarrow> [[c]]
            | p # ps \<Rightarrow> (c # p) # ps))"
  by pat_completeness auto
termination
  by (relation "measure length") (auto simp: length_dropWhile_le less_Suc_eq_le)

subsection \<open>Data model\<close>

text \<open>
  \<^verbatim>\<open>TranscriptSegment\<close> (declared in \<^verbatim>\<open>src/lib/db.ts\<close>) and \<^verbatim>\<open>WordTimestamp\<close>.
  Two names are keywords of Isabelle: the field \<^verbatim>\<open>text\<close> of a segment is \<open>seg_text\<close> here,
  and the fields \<^verbatim>\<open>start\<close> and \<^verbatim>\<open>end\<close> of a word are \<open>wstart\<close> and \<open>wend\<close>
  (\<open>start\<close> is the field of a segment). The optional fields are options.
\<close>

record TranscriptSegment =
  seg_text :: jsstring
  start :: real
  duration :: real
  offset :: "real option"
  translation :: "jsstring option"

record WordTimestamp =
  word :: jsstring
  wstart :: real
  wend :: real
  segmentIndex :: int
  wordIndex :: int

subsection \<open>estimateWordTimings\<close>

text \<open>\<^verbatim>\<open>text.split(/\s+/).filter(w => w.length > 0)\<close>\<close>

definition tokens :: "jsstring \<Rightarrow> jsstring list" where
  "tokens s = filter (\<lambda>w. length w > 0) (split_ws s)"

text \<open>
  The duration one pass of the loop body gives to \<open>word\<close>; \<open>n\<close> is \<^verbatim>\<open>words.length\<close>.
  The body runs only when \<open>n \<ge> 1\<close>, and then the text is not empty, so neither
  division is by zero. Here and in the loop the arithmetic is exact; \<open>wordDuration64\<close>
  and \<open>estimate_loop64\<close> below round every result as the code does.
\<close>

definition wordDuration :: "TranscriptSegment \<Rightarrow> nat \<Rightarrow> jsstring \<Rightarrow> real" where
  "wordDuration segment n w =
     (let timePerWord = duration segment / real n;
          wordLength = real (length w);
          avgWordLength = real (length (seg_text segment)) / real n;
          lengthFactor = wordLength / avgWordLength
      in timePerWord * lengthFactor)"

text \<open>
  The \<^verbatim>\<open>words.forEach((word, index) => ...)\<close> loop: the remaining words, the index
  of the next one and \<^verbatim>\<open>currentTime\<close>; the result is what the loop pushes.
\<close>

fun estimate_loop ::
  "TranscriptSegment \<Rightarrow> int \<Rightarrow> nat \<Rightarrow> jsstring list \<Rightarrow> nat \<Rightarrow> real \<Rightarrow> WordTimestamp list" where
  "estimate_loop segment segIdx n [] index currentTime = []"
| "estimate_loop segment segIdx n (w # ws) index currentTime =
     \<lparr>word = w, wstart = currentTime, wend = currentTime + wordDuration segment n w,
      segmentIndex = segIdx, wordIndex = int index\<rparr>
     # estimate_loop segment segIdx n ws (Suc index) (currentTime + wordDuration segment n w)"

definition estimateWordTimings :: "TranscriptSegment \<Rightarrow> int \<Rightarrow> WordTimestamp list" where
  "estimateWordTimings segment segIdx =
     (let words = tokens (seg_text segment)
      in if length words = 0 then []
         else estimate_loop segment segIdx (length words) words 0 (start segment))"

subsection \<open>generateWordTimestamps\<close>

text \<open>The \<^verbatim>\<open>transcript.forEach((segment, index) => ...)\<close> loop with its accumulator \<^verbatim>\<open>allWords\<close>.\<close>

fun generate_loop :: "TranscriptSegment list \<Rightarrow> nat \<Rightarrow> WordTimestamp list \<Rightarrow> WordTimestamp list" where
  "generate_loop [] index allWords = allWords"
| "generate_loop (segment # rest) index allWords =
     generate_loop rest (Suc index) (allWords @ estimateWordTimings segment (int index))"

definition generateWordTimestamps :: "TranscriptSegment list \<Rightarrow> WordTimestamp list" where
  "generateWordTimestamps transcript = generate_loop transcript 0 []"

subsection \<open>findActiveWord\<close>

text \<open>\<^verbatim>\<open>Array.prototype.findIndex\<close>: the index of the first element satisfying the predicate, or -1.\<close>

fun findIndex_from :: "('a \<Rightarrow> bool) \<Rightarrow> 'a list \<Rightarrow> nat \<Rightarrow> int" where
  "findIndex_from p [] k = - 1"
| "findIndex_from p (x # xs) k = (if p x then int k else findIndex_from p xs (Suc k))"

definition findIndex :: "('a \<Rightarrow> bool) \<Rightarrow> 'a list \<Rightarrow> int" where
  "findIndex p xs = findIndex_from p xs 0"

definition findActiveWord :: "WordTimestamp list \<Rightarrow> real \<Rightarrow> int" where
  "findActiveWord words currentTime =
     findIndex (\<lambda>w. currentTime \<ge> wstart w \<and> currentTime < wend w) words"

subsection \<open>cleanWord\<close>

text \<open>
  The character class of the first \<^verbatim>\<open>replace\<close>: the note sign U+266A, the square
  brackets, the parentheses, and \<^verbatim>\<open>. , ! ? ; :\<close>, the apostrophe and the double quote.
\<close>

definition isStripped :: "16 word \<Rightarrow> bool" where
  "isStripped c \<longleftrightarrow>
     c = 0x266A \<or> c = 0x5B \<or> c = 0x5D \<or> c = 0x28 \<or> c = 0x29 \<or> c = 0x2E \<or> c = 0x2C \<or>
     c = 0x21 \<or> c = 0x3F \<or> c = 0x3B \<or> c = 0x3A \<or> c = 0x27 \<or> c = 0x22"

text \<open>
  A global \<^verbatim>\<open>replace\<close> scans the string from the left and replaces every match.
  The class matches one code unit (the expression has no \<^verbatim>\<open>u\<close> flag) and
  is replaced by the empty string; \<^verbatim>\<open>\s+\<close> is greedy, matches a maximal run of
  whitespace, and is replaced by one space.
\<close>

fun replace_punct :: "jsstring \<Rightarrow> jsstring" where
  "replace_punct [] = []"
| "replace_punct (c # cs) = (if isStripped c then replace_punct cs else c # replace_punct cs)"

function replace_ws :: "jsstring \<Rightarrow> jsstring" where
  "replace_ws [] = []"
| "replace_ws (c # cs) =
     (if isWhiteSpace c then 0x20 # replace_ws (dropWhile isWhiteSpace cs)
      else c # replace_ws cs)"
  by pat_completeness auto
termination
  by (relation "measure length") (auto simp: length_dropWhile_le less_Suc_eq_le)

text \<open>\<^verbatim>\<open>String.prototype.trim\<close>: whitespace is removed from both ends.\<close>

definition trim :: "jsstring \<Rightarrow> jsstring" where
  "trim s = rev (dropWhile isWhiteSpace (rev (dropWhile isWhiteSpace s)))"

text \<open>
  \<^verbatim>\<open>String.prototype.toLowerCase\<close> is a built-in of the language whose result is
  given by the case mappings of the Unicode Character Database, which are no part of
  the repository. \<open>cleanWord\<close> therefore takes the built-in as its first argument,
  and each theorem about it states the facts about \<^verbatim>\<open>toLowerCase\<close> it relies on.
\<close>

definition cleanWord :: "(jsstring \<Rightarrow> jsstring) \<Rightarrow> jsstring \<Rightarrow> jsstring" where
  "cleanWord toLowerCase w = toLowerCase (trim (replace_ws (replace_punct w)))"

text \<open>
  On a string of ASCII code units \<^verbatim>\<open>toLowerCase\<close> maps \<^verbatim>\<open>A\<close>..\<^verbatim>\<open>Z\<close> to
  \<^verbatim>\<open>a\<close>..\<^verbatim>\<open>z\<close> and leaves every other unit alone. \<open>ascii_toLowerCase\<close> does this on
  every string; it is the instance used to evaluate \<open>cleanWord\<close> on examples.
\<close>

definition ascii_lower :: "16 word \<Rightarrow> 16 word" where
  "ascii_lower c = (if 0x41 \<le> c \<and> c \<le> 0x5A then c + 0x20 else c)"

definition ascii_toLowerCase :: "jsstring \<Rightarrow> jsstring" where
  "ascii_toLowerCase s = map ascii_lower s"

definition lowers_ascii :: "(jsstring \<Rightarrow> jsstring) \<Rightarrow> bool" where
  "lowers_ascii toLowerCase \<longleftrightarrow>
     (\<forall>s. (\<forall>c \<in> set s. c < 0x80) \<longrightarrow> toLowerCase s = ascii_toLowerCase s)"

subsection \<open>Double-precision arithmetic\<close>

text \<open>
  The arithmetic of the code is that of IEEE-754 binary64: the result of \<^verbatim>\<open>+\<close>,
  \<^verbatim>\<open>*\<close> and \<^verbatim>\<open>/\<close> is the exact result rounded to the nearest double, a tie going
  to the double with the even significand.

  \<open>round_half_even\<close> rounds a real to the nearest integer, a tie going to the even one.
\<close>

definition round_half_even :: "real \<Rightarrow> int" where
  "round_half_even y =
     (let f = \<lfloor>y\<rfloor>; r = y - of_int f
      in if r < 1 / 2 then f else if 1 / 2 < r then f + 1 else if even f then f else f + 1)"

text \<open>
  The doubles around \<open>x\<close> are the multiples of \<open>ulp x\<close>. For \<open>2^e \<le> |x| < 2^(e+1)\<close>
  with \<open>e \<ge> -1022\<close> they are \<open>2^(e-52)\<close> apart (53 significant bits); below
  \<open>2^-1022\<close>, in the subnormal range, they are \<open>2^-1074\<close> apart.
\<close>

definition binade :: "real \<Rightarrow> int" where
  "binade x = max \<lfloor>log 2 \<bar>x\<bar>\<rfloor> (- 1022)"

definition ulp :: "real \<Rightarrow> real" where
  "ulp x = 2 powr (of_int (binade x) - 52)"

definition binary64 :: "real \<Rightarrow> real" where
  "binary64 x = (if x = 0 then 0 else ulp x * of_int (round_half_even (x / ulp x)))"

text \<open>The doubles are the reals that rounding leaves alone.\<close>

definition is_double :: "real \<Rightarrow> bool" where
  "is_double x \<longleftrightarrow> binary64 x = x"

text \<open>
  The estimator with the arithmetic of the code. The lengths and the number of words
  are integers far below \<open>2^53\<close> and so doubles as they are; \<^verbatim>\<open>timePerWord\<close>,
  \<^verbatim>\<open>avgWordLength\<close>, \<^verbatim>\<open>lengthFactor\<close>, \<^verbatim>\<open>wordDuration\<close> and the two sums
  \<^verbatim>\<open>currentTime + wordDuration\<close> are each rounded.
\<close>

definition wordDuration64 :: "TranscriptSegment \<Rightarrow> nat \<Rightarrow> jsstring \<Rightarrow> real" where
  "wordDuration64 segment n w =
     (let timePerWord = binary64 (duration segment / real n);
          wordLength = real (length w);
          avgWordLength = binary64 (real (length (seg_text segment)) / real n);
          lengthFactor = binary64 (wordLength / avgWordLength)
      in binary64 (timePerWord * lengthFactor))"

fun estimate_loop64 ::
  "TranscriptSegment \<Rightarrow> int \<Rightarrow> nat \<Rightarrow> jsstring list \<Rightarrow> nat \<Rightarrow> real \<Rightarrow> WordTimestamp list" where
  "estimate_loop64 segment segIdx n [] index currentTime = []"
| "estimate_loop64 segment segIdx n (w # ws) index currentTime =
     \<lparr>word = w, wstart = currentTime,
      wend = binary64 (currentTime + wordDuration64 segment n w),
      segmentIndex = segIdx, wordIndex = int index\<rparr>
     # estimate_loop64 segment segIdx n ws (Suc index)
         (binary64 (currentTime + wordDuration64 segment n w))"

definition estimateWordTimings64 :: "TranscriptSegment \<Rightarrow> int \<Rightarrow> WordTimestamp list" where
  "estimateWordTimings64 segment segIdx =
     (let words = tokens (seg_text segment)
      in if length words = 0 then []
         else estimate_loop64 segment segIdx (length words) words 0 (start segment))"



subsection \<open>Notions used to state the properties\<close>

text \<open>The caption line of the end-to-end scenario, three seconds and 240 milliseconds long.\<close>

definition example_segment :: TranscriptSegment where
  "example_segment =
     \<lparr>seg_text = js ''We're no strangers to love'', start = 0, duration = 324 / 100,
      offset = None, translation = None\<rparr>"

text \<open>The half-open interval of a word contains the time \<open>t\<close>: the test of \<open>findActiveWord\<close>.\<close>

abbreviation active :: "WordTimestamp \<Rightarrow> real \<Rightarrow> bool" where
  "active w t \<equiv> wstart w \<le> t \<and> t < wend w"


text \<open>Pieces joined by single spaces.\<close>

fun join_spaces :: "jsstring list \<Rightarrow> jsstring" where
  "join_spaces [] = []"
| "join_spaces [p] = p"
| "join_spaces (p # q # qs) = p @ 0x20 # join_spaces (q # qs)"

text \<open>
  The shape of a cleaned string before it is lowercased: none of the stripped
  characters, no whitespace but the space, no space at either end and no two spaces
  in a row.
\<close>

definition clean_shape :: "jsstring \<Rightarrow> bool" where
  "clean_shape s \<longleftrightarrow>
     list_all (\<lambda>c. \<not> isStripped c) s \<and>
     list_all (\<lambda>c. isWhiteSpace c = (c = 0x20)) s \<and>
     (s = [] \<or> (\<not> isWhiteSpace (hd s) \<and> \<not> isWhiteSpace (last s))) \<and>
     successively (\<lambda>a b. \<not> (isWhiteSpace a \<and> isWhiteSpace b)) s"

section \<open>Properties\<close>

subsection \<open>Tokens\<close>

lemma split_ws_nonempty: "split_ws s \<noteq> []"
  by (induction s rule: split_ws.induct) (auto split: list.splits)

lemma sum_length_split_ws: "sum_list (map length (split_ws s)) \<le> length s"
proof (induction s rule: split_ws.induct)
  case 1
  show ?case by simp
next
  case (2 c cs)
  show ?case
  proof (cases "isWhiteSpace c")
    case True
    have "length (dropWhile isWhiteSpace cs) \<le> length cs"
      by (rule length_dropWhile_le)
    with True 2(1) show ?thesis by simp
  next
    case False
    with 2(2) show ?thesis by (auto split: list.splits)
  qed
qed

lemma sum_length_filter_le:
  "sum_list (map length (filter P xs)) \<le> sum_list (map length xs)"
  by (induction xs) auto

lemma sum_length_tokens: "sum_list (map length (tokens s)) \<le> length s"
  unfolding tokens_def
  using sum_length_filter_le [of "\<lambda>w. length w > 0" "split_ws s"] sum_length_split_ws [of s]
  by linarith

lemma tokens_lengths_pos: "w \<in> set (tokens s) \<Longrightarrow> 0 < length w"
  by (simp add: tokens_def)

lemma tokens_text_nonempty: "tokens s \<noteq> [] \<Longrightarrow> 0 < length s"
proof -
  assume "tokens s \<noteq> []"
  then obtain w ws where "tokens s = w # ws" by (cases "tokens s") auto
  moreover from this have "0 < length w" using tokens_lengths_pos [of w s] by simp
  ultimately have "0 < sum_list (map length (tokens s))" by simp
  with sum_length_tokens [of s] show ?thesis by linarith
qed

subsection \<open>The estimator's loop\<close>

lemma wordDuration_eq:
  "0 < n \<Longrightarrow> wordDuration segment n w =
     duration segment * real (length w) / real (length (seg_text segment))"
  by (simp add: wordDuration_def Let_def)

lemma estimate_loop_length [simp]:
  "length (estimate_loop segment k n ws i c) = length ws"
  by (induction ws arbitrary: i c) auto

lemma estimate_loop_nth:
  "j < length ws \<Longrightarrow>
   estimate_loop segment k n ws i c ! j =
     \<lparr>word = ws ! j,
      wstart = c + sum_list (map (wordDuration segment n) (take j ws)),
      wend = c + sum_list (map (wordDuration segment n) (take j ws)) + wordDuration segment n (ws ! j),
      segmentIndex = k, wordIndex = int (i + j)\<rparr>"
proof (induction ws arbitrary: i c j)
  case Nil
  then show ?case by simp
next
  case (Cons w ws)
  show ?case
  proof (cases j)
    case 0
    then show ?thesis by simp
  next
    case (Suc j')
    with Cons.prems have "j' < length ws" by simp
    from Cons.IH [OF this] Suc show ?thesis by (simp add: add.assoc)
  qed
qed

lemma estimateWordTimings_length:
  "length (estimateWordTimings segment k) = length (tokens (seg_text segment))"
  by (simp add: estimateWordTimings_def Let_def)

lemma estimateWordTimings_nth:
  assumes "j < length (tokens (seg_text segment))"
  shows "estimateWordTimings segment k ! j =
     \<lparr>word = tokens (seg_text segment) ! j,
      wstart = start segment + sum_list (map (wordDuration segment (length (tokens (seg_text segment))))
                 (take j (tokens (seg_text segment)))),
      wend = start segment + sum_list (map (wordDuration segment (length (tokens (seg_text segment))))
                 (take j (tokens (seg_text segment))))
             + wordDuration segment (length (tokens (seg_text segment))) (tokens (seg_text segment) ! j),
      segmentIndex = k, wordIndex = int j\<rparr>"
proof -
  from assms have "tokens (seg_text segment) \<noteq> []" by auto
  then have "estimateWordTimings segment k =
      estimate_loop segment k (length (tokens (seg_text segment))) (tokens (seg_text segment)) 0 (start segment)"
    by (simp add: estimateWordTimings_def Let_def)
  with estimate_loop_nth [OF assms, of segment k "length (tokens (seg_text segment))" 0 "start segment"]
  show ?thesis by simp
qed

subsection \<open>The records of one segment\<close>

lemma example_tokens:
  "tokens (seg_text example_segment) =
     [js ''We're'', js ''no'', js ''strangers'', js ''to'', js ''love'']"
  by (simp add: example_segment_def tokens_def js_def isWhiteSpace_def)

text \<open>
  Claim C2. When the text of a segment splits into \<open>N \<ge> 1\<close> tokens,
  \<open>estimateWordTimings\<close> returns exactly \<open>N\<close> records; their words are the raw tokens
  in order, every \<open>segmentIndex\<close> is the index given, and the \<open>wordIndex\<close> fields are
  \<open>0, 1, ..., N - 1\<close> in order.
\<close>

theorem estimateWordTimings_records:
  assumes "length (tokens (seg_text segment)) = N" and "1 \<le> N"
  shows "length (estimateWordTimings segment k) = N
       \<and> map word (estimateWordTimings segment k) = tokens (seg_text segment)
       \<and> map segmentIndex (estimateWordTimings segment k) = replicate N k
       \<and> map wordIndex (estimateWordTimings segment k) = map int [0..<N]"
proof -
  let ?r = "estimateWordTimings segment k"
  have len: "length ?r = N"
    using assms(1) by (simp add: estimateWordTimings_length)
  have nth: "\<And>j. j < N \<Longrightarrow> word (?r ! j) = tokens (seg_text segment) ! j
       \<and> segmentIndex (?r ! j) = k \<and> wordIndex (?r ! j) = int j"
    using assms(1) by (simp add: estimateWordTimings_nth)
  have "map word ?r = tokens (seg_text segment)"
    by (rule nth_equalityI) (use len assms(1) nth in auto)
  moreover have "map segmentIndex ?r = replicate N k"
    by (rule nth_equalityI) (use len nth in auto)
  moreover have "map wordIndex ?r = map int [0..<N]"
    by (rule nth_equalityI) (use len nth in auto)
  ultimately show ?thesis using len by simp
qed

theorem estimateWordTimings_records_witness:
  "length (tokens (seg_text example_segment)) = 5
   \<and> length (estimateWordTimings example_segment 2) = 5
   \<and> map word (estimateWordTimings example_segment 2) =
       [js ''We're'', js ''no'', js ''strangers'', js ''to'', js ''love'']
   \<and> map segmentIndex (estimateWordTimings example_segment 2) = [2, 2, 2, 2, 2]
   \<and> map wordIndex (estimateWordTimings example_segment 2) = [0, 1, 2, 3, 4]"
proof -
  have h: "length (tokens (seg_text example_segment)) = 5"
    by (simp add: example_tokens)
  have u: "[0..<5] = [0, 1, 2, 3, 4]" and r: "replicate 5 (2::int) = [2, 2, 2, 2, 2]"
    by (simp_all add: upt_rec numeral_eq_Suc)
  from estimateWordTimings_records [OF h, of 2] h show ?thesis
    by (simp add: example_tokens u r)
qed

text \<open>
  Claim C3. For a segment with at least one token the first record starts at the
  start of the segment, and each record ends exactly where the next one starts.
\<close>

theorem estimateWordTimings_cursor_continuity:
  assumes "tokens (seg_text segment) \<noteq> []"
  shows "wstart (estimateWordTimings segment k ! 0) = start segment
       \<and> (\<forall>i. Suc i < length (estimateWordTimings segment k) \<longrightarrow>
            wend (estimateWordTimings segment k ! i) = wstart (estimateWordTimings segment k ! Suc i))"
proof -
  let ?ws = "tokens (seg_text segment)"
  from assms have 0: "0 < length ?ws" by simp
  have first: "wstart (estimateWordTimings segment k ! 0) = start segment"
    by (simp add: estimateWordTimings_nth [OF 0])
  have "wend (estimateWordTimings segment k ! i) = wstart (estimateWordTimings segment k ! Suc i)"
    if "Suc i < length (estimateWordTimings segment k)" for i
  proof -
    from that have s: "Suc i < length ?ws" and i: "i < length ?ws"
      by (simp_all add: estimateWordTimings_length)
    show ?thesis
      by (simp add: estimateWordTimings_nth [OF s] estimateWordTimings_nth [OF i]
            take_Suc_conv_app_nth [OF i])
  qed
  with first show ?thesis by blast
qed

theorem estimateWordTimings_cursor_continuity_witness:
  "tokens (seg_text example_segment) \<noteq> []
   \<and> wstart (estimateWordTimings example_segment 0 ! 0) = start example_segment
   \<and> wend (estimateWordTimings example_segment 0 ! 0) = wstart (estimateWordTimings example_segment 0 ! 1)
   \<and> wend (estimateWordTimings example_segment 0 ! 3) = wstart (estimateWordTimings example_segment 0 ! 4)"
proof -
  have h: "tokens (seg_text example_segment) \<noteq> []"
    by (simp add: example_tokens)
  have l: "length (estimateWordTimings example_segment 0) = 5"
    by (simp add: estimateWordTimings_length example_tokens)
  from estimateWordTimings_cursor_continuity [OF h, of 0] l h show ?thesis
    by (simp add: numeral_eq_Suc)
qed

subsection \<open>findIndex\<close>

lemma findIndex_from_none:
  "(\<And>x. x \<in> set xs \<Longrightarrow> \<not> p x) \<Longrightarrow> findIndex_from p xs k = - 1"
  by (induction xs arbitrary: k) auto

lemma findIndex_from_first:
  "i < length xs \<Longrightarrow> p (xs ! i) \<Longrightarrow> (\<And>j. j < i \<Longrightarrow> \<not> p (xs ! j)) \<Longrightarrow>
   findIndex_from p xs k = int (k + i)"
proof (induction xs arbitrary: k i)
  case Nil
  then show ?case by simp
next
  case (Cons x xs)
  show ?case
  proof (cases i)
    case 0
    with Cons.prems show ?thesis by simp
  next
    case (Suc i')
    have "\<not> p ((x # xs) ! 0)"
      by (rule Cons.prems(3)) (simp add: Suc)
    then have nx: "\<not> p x" by simp
    have "findIndex_from p xs (Suc k) = int (Suc k + i')"
    proof (rule Cons.IH)
      show "i' < length xs" using Cons.prems(1) Suc by simp
      show "p (xs ! i')" using Cons.prems(2) Suc by simp
      show "\<not> p (xs ! j)" if "j < i'" for j
      proof -
        have "\<not> p ((x # xs) ! Suc j)"
          by (rule Cons.prems(3)) (use that Suc in simp)
        then show ?thesis by simp
      qed
    qed
    with nx Suc show ?thesis by simp
  qed
qed

lemma findIndex_cases:
  "(findIndex p xs = - 1 \<and> (\<forall>i < length xs. \<not> p (xs ! i)))
   \<or> (\<exists>i < length xs. findIndex p xs = int i \<and> p (xs ! i) \<and> (\<forall>j < i. \<not> p (xs ! j)))"
proof (cases "\<exists>i < length xs. p (xs ! i)")
  case False
  have "findIndex_from p xs 0 = - 1"
    by (rule findIndex_from_none) (use False in \<open>auto simp: in_set_conv_nth\<close>)
  with False show ?thesis
    by (simp add: findIndex_def)
next
  case True
  define i where "i = (LEAST i. i < length xs \<and> p (xs ! i))"
  from True obtain i0 where "i0 < length xs \<and> p (xs ! i0)" by blast
  then have i: "i < length xs \<and> p (xs ! i)"
    unfolding i_def by (rule LeastI)
  have least: "\<not> p (xs ! j)" if "j < i" for j
  proof
    assume "p (xs ! j)"
    with that i have "j < length xs \<and> p (xs ! j)" by simp
    then have "i \<le> j" unfolding i_def by (rule Least_le)
    with that show False by simp
  qed
  from i have "findIndex p xs = int i"
    using findIndex_from_first [of i xs p 0] least by (simp add: findIndex_def)
  with i least show ?thesis by blast
qed

lemma findActiveWord_none:
  "(\<And>r. r \<in> set words \<Longrightarrow> \<not> active r t) \<Longrightarrow> findActiveWord words t = - 1"
  unfolding findActiveWord_def findIndex_def
  by (rule findIndex_from_none) auto

subsection \<open>Times inside one segment\<close>

lemma sum_wordDuration:
  "0 < n \<Longrightarrow> sum_list (map (wordDuration segment n) ws) =
     duration segment * real (sum_list (map length ws)) / real (length (seg_text segment))"
  by (induction ws) (simp_all add: wordDuration_eq add_divide_distrib distrib_left)

text \<open>Start and end of the \<open>j\<close>-th record, as a share of the duration of the segment.\<close>

lemma estimateWordTimings_times:
  assumes "j < length (tokens (seg_text segment))"
  shows "wstart (estimateWordTimings segment k ! j) =
           start segment + duration segment
             * real (sum_list (map length (take j (tokens (seg_text segment)))))
             / real (length (seg_text segment))"
    and "wend (estimateWordTimings segment k ! j) =
           start segment + duration segment
             * real (sum_list (map length (take (Suc j) (tokens (seg_text segment)))))
             / real (length (seg_text segment))"
    and "wend (estimateWordTimings segment k ! j) - wstart (estimateWordTimings segment k ! j) =
           duration segment * real (length (tokens (seg_text segment) ! j))
             / real (length (seg_text segment))"
proof -
  let ?ws = "tokens (seg_text segment)"
  from assms have n: "0 < length ?ws" by auto
  show "wstart (estimateWordTimings segment k ! j) =
           start segment + duration segment * real (sum_list (map length (take j ?ws)))
             / real (length (seg_text segment))"
    by (simp add: estimateWordTimings_nth [OF assms] sum_wordDuration [OF n])
  have "sum_list (map (wordDuration segment (length ?ws)) (take j ?ws))
          + wordDuration segment (length ?ws) (?ws ! j)
        = sum_list (map (wordDuration segment (length ?ws)) (take (Suc j) ?ws))"
    by (simp add: take_Suc_conv_app_nth [OF assms])
  then show "wend (estimateWordTimings segment k ! j) =
           start segment + duration segment * real (sum_list (map length (take (Suc j) ?ws)))
             / real (length (seg_text segment))"
    by (simp add: estimateWordTimings_nth [OF assms] sum_wordDuration [OF n] add.assoc)
  show "wend (estimateWordTimings segment k ! j) - wstart (estimateWordTimings segment k ! j) =
           duration segment * real (length (?ws ! j)) / real (length (seg_text segment))"
    by (simp add: estimateWordTimings_nth [OF assms] wordDuration_eq [OF n])
qed


lemma in_estimateWordTimings:
  assumes "r \<in> set (estimateWordTimings segment k)"
  obtains j where "j < length (tokens (seg_text segment))" and "r = estimateWordTimings segment k ! j"
  using assms by (auto simp: in_set_conv_nth estimateWordTimings_length)

lemma record_width:
  assumes "r \<in> set (estimateWordTimings segment k)"
  shows "\<exists>w. 0 < length w \<and>
           wend r - wstart r = duration segment * real (length (w::jsstring)) / real (length (seg_text segment))"
proof -
  let ?ws = "tokens (seg_text segment)"
  from assms(1) obtain j where j: "j < length ?ws"
    and r: "r = estimateWordTimings segment k ! j" by (rule in_estimateWordTimings)
  from j have "?ws ! j \<in> set ?ws" by simp
  then have "0 < length (?ws ! j)" by (rule tokens_lengths_pos)
  with estimateWordTimings_times(3) [OF j, of k] r show ?thesis by blast
qed

subsection \<open>Width of a record\<close>

lemma length_js: "length (js s) = length s"
  by (simp add: js_def)

lemma zero_duration_records:
  assumes "r \<in> set (estimateWordTimings segment k)" and "duration segment = 0"
  shows "wstart r = wend r"
  using record_width [OF assms(1)] assms(2) by auto

subsection \<open>The active word\<close>

text \<open>
  Claim C4. \<open>findActiveWord words t\<close> is the least index whose record has
  \<open>start \<le> t < end\<close>, and \<open>-1\<close> when no record has. A record with
  \<open>start = end\<close> is never the index returned; so none of the records of a segment of
  duration \<open>0\<close> is ever returned, in whatever list they stand, and on the records of
  such a segment alone the result is \<open>-1\<close> for every time.
\<close>

theorem findActiveWord_least_active:
  "((findActiveWord words t = - 1 \<and> (\<forall>i < length words. \<not> active (words ! i) t))
     \<or> (\<exists>i < length words. findActiveWord words t = int i \<and> active (words ! i) t
           \<and> (\<forall>j < i. \<not> active (words ! j) t)))
   \<and> (\<forall>i < length words. wstart (words ! i) = wend (words ! i) \<longrightarrow> findActiveWord words t \<noteq> int i)
   \<and> (duration segment = 0 \<longrightarrow>
        (\<forall>r \<in> set (estimateWordTimings segment k). wstart r = wend r)
        \<and> (\<forall>i < length words. words ! i \<in> set (estimateWordTimings segment k)
              \<longrightarrow> findActiveWord words t \<noteq> int i)
        \<and> findActiveWord (estimateWordTimings segment k) t = - 1)"
proof -
  let ?p = "\<lambda>w. t \<ge> wstart w \<and> t < wend w"
  have cases: "(findActiveWord words t = - 1 \<and> (\<forall>i < length words. \<not> active (words ! i) t))
     \<or> (\<exists>i < length words. findActiveWord words t = int i \<and> active (words ! i) t
           \<and> (\<forall>j < i. \<not> active (words ! j) t))"
    using findIndex_cases [of ?p words] by (simp add: findActiveWord_def)
  have zero: "findActiveWord words t \<noteq> int i"
    if "i < length words" and "wstart (words ! i) = wend (words ! i)" for i
  proof
    assume eq: "findActiveWord words t = int i"
    from cases eq obtain i' where "int i = int i'" and "active (words ! i') t"
      by auto
    then have "active (words ! i) t" by simp
    with that(2) show False by simp
  qed
  have seg: "(\<forall>r \<in> set (estimateWordTimings segment k). wstart r = wend r)
        \<and> (\<forall>i < length words. words ! i \<in> set (estimateWordTimings segment k)
              \<longrightarrow> findActiveWord words t \<noteq> int i)
        \<and> findActiveWord (estimateWordTimings segment k) t = - 1"
    if d: "duration segment = 0"
  proof -
    have w: "\<And>r. r \<in> set (estimateWordTimings segment k) \<Longrightarrow> wstart r = wend r"
      using d by (rule zero_duration_records [rotated])
    have "findActiveWord (estimateWordTimings segment k) t = - 1"
      by (rule findActiveWord_none) (use w in force)
    with w zero show ?thesis by blast
  qed
  from cases zero seg show ?thesis by blast
qed

theorem findActiveWord_least_active_witness:
  "findActiveWord
      (estimateWordTimings \<lparr>seg_text = js ''ab c'', start = 1, duration = 2, offset = None, translation = None\<rparr> 7)
      2 = 1
   \<and> duration \<lparr>seg_text = js ''a b c'', start = 5, duration = 0, offset = None, translation = None\<rparr> = 0
   \<and> length (estimateWordTimings
        \<lparr>seg_text = js ''a b c'', start = 5, duration = 0, offset = None, translation = None\<rparr> 0) = 3
   \<and> findActiveWord (estimateWordTimings
        \<lparr>seg_text = js ''a b c'', start = 5, duration = 0, offset = None, translation = None\<rparr> 0) 5 = - 1"
proof -
  let ?S = "\<lparr>seg_text = js ''ab c'', start = 1, duration = 2, offset = None, translation = None\<rparr>"
  let ?Z = "\<lparr>seg_text = js ''a b c'', start = 5, duration = 0, offset = None, translation = None\<rparr>"
  have t: "tokens (js ''ab c'') = [js ''ab'', js ''c'']"
    by (simp add: tokens_def js_def isWhiteSpace_def)
  have e: "estimateWordTimings ?S 7 =
      [\<lparr>word = js ''ab'', wstart = 1, wend = 2, segmentIndex = 7, wordIndex = 0\<rparr>,
       \<lparr>word = js ''c'', wstart = 2, wend = 5 / 2, segmentIndex = 7, wordIndex = 1\<rparr>]"
    by (simp add: estimateWordTimings_def t wordDuration_def length_js)
  have z: "tokens (js ''a b c'') = [js ''a'', js ''b'', js ''c'']"
    by (simp add: tokens_def js_def isWhiteSpace_def)
  have l: "length (estimateWordTimings ?Z 0) = 3"
    by (simp add: estimateWordTimings_length z)
  have d: "duration ?Z = 0" by simp
  from findActiveWord_least_active [of "estimateWordTimings ?S 7" 2 ?Z 0] d
  have 1: "findActiveWord (estimateWordTimings ?S 7) 2 = 1"
    unfolding e by (auto simp: less_Suc_eq numeral_2_eq_2)
  from findActiveWord_least_active [of "estimateWordTimings ?Z 0" 5 ?Z 0] d
  have 2: "findActiveWord (estimateWordTimings ?Z 0) 5 = - 1" by blast
  from 1 2 l d show ?thesis by blast
qed

subsection \<open>The whole transcript\<close>

lemma generate_loop_acc:
  "generate_loop tr i acc = acc @ generate_loop tr i []"
proof (induction tr arbitrary: i acc)
  case Nil
  show ?case by simp
next
  case (Cons s tr)
  have "generate_loop (s # tr) i acc = (acc @ estimateWordTimings s (int i)) @ generate_loop tr (Suc i) []"
    using Cons [of "Suc i" "acc @ estimateWordTimings s (int i)"] by simp
  also have "\<dots> = acc @ generate_loop (s # tr) i []"
    using Cons [of "Suc i" "estimateWordTimings s (int i)"] by simp
  finally show ?case .
qed

lemma generate_loop_append:
  "generate_loop (xs @ ys) i acc = generate_loop ys (i + length xs) (generate_loop xs i acc)"
  by (induction xs arbitrary: i acc) simp_all

lemma generate_loop_Cons:
  "generate_loop (s # tr) i [] = estimateWordTimings s (int i) @ generate_loop tr (Suc i) []"
  using generate_loop_acc [of tr "Suc i" "estimateWordTimings s (int i)"] by simp

lemma generate_loop_snoc:
  "generate_loop (tr @ [s]) i [] = generate_loop tr i [] @ estimateWordTimings s (int (i + length tr))"
  by (simp add: generate_loop_append)

lemma generate_loop_concat:
  "generate_loop tr i [] = concat (map (\<lambda>j. estimateWordTimings (tr ! j) (int (i + j))) [0..<length tr])"
proof (induction tr rule: rev_induct)
  case Nil
  show ?case by simp
next
  case (snoc s tr)
  let ?f = "\<lambda>j. estimateWordTimings (tr ! j) (int (i + j))"
  let ?g = "\<lambda>j. estimateWordTimings ((tr @ [s]) ! j) (int (i + j))"
  have m: "map ?f [0..<length tr] = map ?g [0..<length tr]"
    by (rule map_cong) (simp_all add: nth_append)
  have "generate_loop (tr @ [s]) i [] =
      concat (map ?f [0..<length tr]) @ estimateWordTimings s (int (i + length tr))"
    by (simp only: generate_loop_snoc snoc.IH)
  also have "\<dots> = concat (map ?g [0..<length tr]) @ ?g (length tr)"
    by (simp only: m nth_append_length)
  also have "\<dots> = concat (map ?g [0..<length (tr @ [s])])"
    by simp
  finally show ?case .
qed

lemma segmentIndex_estimateWordTimings:
  "r \<in> set (estimateWordTimings segment k) \<Longrightarrow> segmentIndex r = k"
proof -
  assume "r \<in> set (estimateWordTimings segment k)"
  then obtain j where j: "j < length (tokens (seg_text segment))"
    and r: "r = estimateWordTimings segment k ! j" by (rule in_estimateWordTimings)
  show ?thesis unfolding r by (simp add: estimateWordTimings_nth [OF j])
qed

lemma all_whitespace_split:
  "(\<And>c. c \<in> set s \<Longrightarrow> isWhiteSpace c) \<Longrightarrow> split_ws s = [[]] \<or> split_ws s = [[], []]"
proof (cases s)
  case Nil
  then show ?thesis by simp
next
  case (Cons c cs)
  assume all: "\<And>c. c \<in> set s \<Longrightarrow> isWhiteSpace c"
  with Cons have c: "isWhiteSpace c" by simp
  from all Cons have d: "dropWhile isWhiteSpace cs = []" by simp
  show ?thesis unfolding Cons by (simp add: c d)
qed

lemma all_whitespace_tokens:
  "(\<And>c. c \<in> set s \<Longrightarrow> isWhiteSpace c) \<Longrightarrow> tokens s = []"
  using all_whitespace_split [of s] by (auto simp: tokens_def)

text \<open>
  Claim C7. The estimator has no failing branch: it is a total function to lists. A
  segment whose text yields no token (a text of whitespace only is one) gives the
  empty list, and in \<open>generateWordTimestamps\<close> such a segment adds nothing: the loop
  goes on after it with the accumulator it had before, and no record of the output
  carries the index of that segment.
\<close>

theorem zero_token_segment_contributes_nothing:
  "(tokens (seg_text segment) = [] \<longrightarrow> estimateWordTimings segment k = [])
   \<and> ((\<forall>c \<in> set (seg_text segment). isWhiteSpace c) \<longrightarrow> estimateWordTimings segment k = [])
   \<and> (tokens (seg_text segment) = [] \<longrightarrow>
        generateWordTimestamps (xs @ segment # ys)
          = generate_loop ys (Suc (length xs)) (generateWordTimestamps xs))
   \<and> (\<forall>i < length transcript. tokens (seg_text (transcript ! i)) = [] \<longrightarrow>
        filter (\<lambda>r. segmentIndex r = int i) (generateWordTimestamps transcript) = [])"
proof -
  have 1: "estimateWordTimings segment k = []" if "tokens (seg_text segment) = []" for k
    using that by (simp add: estimateWordTimings_def)
  have 2: "estimateWordTimings segment k = []" if "\<forall>c \<in> set (seg_text segment). isWhiteSpace c"
    using that all_whitespace_tokens [of "seg_text segment"] 1 by blast
  have 3: "generateWordTimestamps (xs @ segment # ys)
          = generate_loop ys (Suc (length xs)) (generateWordTimestamps xs)"
    if "tokens (seg_text segment) = []"
    using 1 [OF that] by (simp add: generateWordTimestamps_def generate_loop_append)
  have 4: "filter (\<lambda>r. segmentIndex r = int i) (generateWordTimestamps transcript) = []"
    if i: "i < length transcript" and e: "tokens (seg_text (transcript ! i)) = []" for i
  proof -
    have "segmentIndex r \<noteq> int i" if r: "r \<in> set (generateWordTimestamps transcript)" for r
    proof -
      from r obtain j where j: "j < length transcript"
        and rj: "r \<in> set (estimateWordTimings (transcript ! j) (int j))"
        by (auto simp: generateWordTimestamps_def generate_loop_concat)
      from rj have s: "segmentIndex r = int j" by (rule segmentIndex_estimateWordTimings)
      have "j \<noteq> i"
      proof
        assume "j = i"
        with rj e show False by (simp add: estimateWordTimings_def)
      qed
      with s show ?thesis by simp
    qed
    then show ?thesis by (simp add: filter_empty_conv)
  qed
  from 1 2 3 4 show ?thesis by blast
qed

theorem zero_token_segment_contributes_nothing_witness:
  "tokens (seg_text \<lparr>seg_text = js ''   '', start = 4, duration = 1, offset = None, translation = None\<rparr>) = []
   \<and> estimateWordTimings
        \<lparr>seg_text = js ''   '', start = 4, duration = 1, offset = None, translation = None\<rparr> 1 = []
   \<and> generateWordTimestamps
        [example_segment,
         \<lparr>seg_text = js ''   '', start = 4, duration = 1, offset = None, translation = None\<rparr>]
       = generateWordTimestamps [example_segment]"
proof -
  let ?B = "\<lparr>seg_text = js ''   '', start = 4, duration = 1, offset = None, translation = None\<rparr>"
  have t: "tokens (seg_text ?B) = []"
    by (simp add: tokens_def js_def isWhiteSpace_def)
  from zero_token_segment_contributes_nothing [of ?B 1 "[example_segment]" "[]" "[]"] t
  show ?thesis by simp
qed

subsection \<open>Rounding to the nearest double\<close>

lemma round_half_even_of_int [simp]: "round_half_even (of_int n) = n"
  by (simp add: round_half_even_def)

lemma round_half_even_bounds:
  "\<lfloor>y\<rfloor> \<le> round_half_even y" "round_half_even y \<le> \<lfloor>y\<rfloor> + 1"
  by (simp_all add: round_half_even_def Let_def)

lemma round_half_even_mono:
  assumes "x \<le> y"
  shows "round_half_even x \<le> round_half_even y"
proof (cases "\<lfloor>x\<rfloor> = \<lfloor>y\<rfloor>")
  case True
  with assms show ?thesis
    by (auto simp: round_half_even_def Let_def)
next
  case False
  with assms have "\<lfloor>x\<rfloor> + 1 \<le> \<lfloor>y\<rfloor>"
    using floor_mono [of x y] by linarith
  with round_half_even_bounds(2) [of x] round_half_even_bounds(1) [of y]
  show ?thesis by linarith
qed

lemma round_half_even_uminus: "round_half_even (- y) = - round_half_even y"
proof (cases "y \<in> \<int>")
  case True
  then obtain n where "y = of_int n" by (auto elim: Ints_cases)
  then show ?thesis
    using round_half_even_of_int [of "- n"] by simp
next
  case False
  then have ne: "of_int \<lfloor>y\<rfloor> \<noteq> y" by (metis Ints_of_int)
  then have f: "\<lfloor>- y\<rfloor> = - \<lfloor>y\<rfloor> - 1"
    by (simp add: floor_minus ceiling_altdef)
  have "y - of_int \<lfloor>y\<rfloor> < 1" by linarith
  then show ?thesis
    unfolding round_half_even_def Let_def f
    by auto
qed

lemma p2_pos: "0 < (2::real) powr a"
  by simp

lemma p2_nonneg_int:
  assumes "0 \<le> j"
  shows "(2::real) powr of_int j = of_int (2 ^ nat j)"
proof -
  have "(2::real) powr of_int j = 2 powr real (nat j)" using assms by simp
  also have "\<dots> = 2 ^ nat j" by (simp add: powr_realpow)
  finally show ?thesis by simp
qed

lemma binade_ge: "- 1022 \<le> binade x"
  by (simp add: binade_def)

lemma binade_uminus [simp]: "binade (- x) = binade x"
  by (simp add: binade_def)

lemma ulp_uminus [simp]: "ulp (- x) = ulp x"
  by (simp add: ulp_def)

lemma ulp_pos: "0 < ulp x"
  by (simp add: ulp_def)

lemma abs_less_next_binade:
  assumes "x \<noteq> 0"
  shows "\<bar>x\<bar> < 2 powr (of_int (binade x) + 1)"
proof -
  have "log 2 \<bar>x\<bar> < of_int \<lfloor>log 2 \<bar>x\<bar>\<rfloor> + 1" by linarith
  also have "\<dots> \<le> of_int (binade x) + 1" by (simp add: binade_def)
  finally have "log 2 \<bar>x\<bar> < of_int (binade x) + 1" .
  then show ?thesis using assms by (simp add: log_less_iff)
qed

lemma binade_le_abs:
  assumes "x \<noteq> 0" and "- 1022 < binade x"
  shows "2 powr of_int (binade x) \<le> \<bar>x\<bar>"
proof -
  from assms(2) have "binade x = \<lfloor>log 2 \<bar>x\<bar>\<rfloor>" by (simp add: binade_def max_def split: if_splits)
  then have "of_int (binade x) \<le> log 2 \<bar>x\<bar>" by simp
  then show ?thesis using assms(1) by (simp add: le_log_iff)
qed

lemma binade_eqI:
  assumes "2 powr of_int e \<le> \<bar>x\<bar>" and "\<bar>x\<bar> < 2 powr (of_int e + 1)" and "- 1022 \<le> e"
  shows "binade x = e"
proof -
  from assms(1) have pos: "0 < \<bar>x\<bar>" using p2_pos [of "of_int e"] by linarith
  then have "\<lfloor>log 2 \<bar>x\<bar>\<rfloor> = e"
    using assms(1,2) by (simp add: floor_log_eq_powr_iff)
  with assms(3) show ?thesis by (simp add: binade_def)
qed

lemma binade_subnormal:
  assumes "x \<noteq> 0" and "\<bar>x\<bar> < 2 powr (- 1021)"
  shows "binade x = - 1022"
proof -
  from assms have "log 2 \<bar>x\<bar> < - 1021" by (simp add: log_less_iff)
  then have "\<lfloor>log 2 \<bar>x\<bar>\<rfloor> \<le> - 1022" by linarith
  then show ?thesis by (simp add: binade_def)
qed

lemma binade_mono:
  assumes "x \<noteq> 0" and "\<bar>x\<bar> \<le> \<bar>y\<bar>"
  shows "binade x \<le> binade y"
proof -
  from assms have "log 2 \<bar>x\<bar> \<le> log 2 \<bar>y\<bar>" by simp
  then have "\<lfloor>log 2 \<bar>x\<bar>\<rfloor> \<le> \<lfloor>log 2 \<bar>y\<bar>\<rfloor>" by (rule floor_mono)
  then show ?thesis by (simp add: binade_def)
qed

lemma binary64_zero [simp]: "binary64 0 = 0"
  by (simp add: binary64_def)

lemma binary64_uminus: "binary64 (- x) = - binary64 x"
  by (simp add: binary64_def round_half_even_uminus)

lemma binary64_nonneg:
  assumes "0 \<le> x"
  shows "0 \<le> binary64 x"
proof (cases "x = 0")
  case True
  then show ?thesis by simp
next
  case False
  have "0 \<le> x / ulp x" using assms ulp_pos [of x] by simp
  then have "round_half_even 0 \<le> round_half_even (x / ulp x)" by (rule round_half_even_mono)
  then have "0 \<le> round_half_even (x / ulp x)" using round_half_even_of_int [of 0] by simp
  with False ulp_pos [of x] show ?thesis by (simp add: binary64_def)
qed

text \<open>A multiple of a power of two with a significand below \<open>2^53\<close> is a double.\<close>

lemma binary64_dyadic:
  assumes "\<bar>m\<bar> < 2 ^ 53" and "- 1074 \<le> e"
  shows "binary64 (of_int m * 2 powr of_int e) = of_int m * 2 powr of_int e"
proof (cases "m = 0")
  case True
  then show ?thesis by simp
next
  case False
  let ?x = "of_int m * 2 powr of_int e :: real"
  let ?E = "binade ?x"
  have x0: "?x \<noteq> 0" using False by simp
  have absx: "\<bar>?x\<bar> = of_int \<bar>m\<bar> * 2 powr of_int e" by (simp add: abs_mult)
  have le: "?E - 52 \<le> e"
  proof (rule ccontr)
    assume "\<not> ?E - 52 \<le> e"
    then have gt: "e + 53 \<le> ?E" by simp
    with assms(2) have "- 1022 < ?E" by simp
    from binade_le_abs [OF x0 this] have "2 powr of_int ?E \<le> \<bar>?x\<bar>" .
    moreover have "(2::real) powr of_int (e + 53) \<le> 2 powr of_int ?E"
      using gt by (intro powr_mono) simp_all
    moreover have "\<bar>?x\<bar> < 2 powr of_int (e + 53)"
    proof -
      have "(of_int \<bar>m\<bar> :: real) < 2 ^ 53" using assms(1) by (metis of_int_less_iff of_int_numeral of_int_power)
      then have "of_int \<bar>m\<bar> * 2 powr of_int e < (2 ^ 53 :: real) * 2 powr of_int e"
        by (intro mult_strict_right_mono) simp_all
      also have "\<dots> = 2 powr of_int (e + 53)"
        by (simp add: powr_add)
      finally show ?thesis unfolding absx .
    qed
    ultimately show False by linarith
  qed
  then have j: "0 \<le> e - (?E - 52)" by simp
  have "?x / ulp ?x = of_int m * 2 powr of_int (e - (?E - 52))"
    by (simp add: ulp_def powr_diff)
  also have "\<dots> = of_int (m * 2 ^ nat (e - (?E - 52)))"
    unfolding p2_nonneg_int [OF j] by simp
  finally have "round_half_even (?x / ulp ?x) = m * 2 ^ nat (e - (?E - 52))"
    by (simp only: round_half_even_of_int)
  then have "binary64 ?x = ulp ?x * (of_int m * 2 powr of_int (e - (?E - 52)))"
    using x0 unfolding binary64_def p2_nonneg_int [OF j] by simp
  also have "\<dots> = ?x"
    by (simp add: ulp_def powr_diff)
  finally show ?thesis .
qed

lemma significand_bound:
  assumes "x \<noteq> 0"
  shows "\<bar>round_half_even (x / ulp x)\<bar> \<le> 2 ^ 53"
proof -
  have "\<bar>x\<bar> < 2 powr (of_int (binade x) + 1)" using assms by (rule abs_less_next_binade)
  also have "\<dots> = 2 ^ 53 * ulp x" by (simp add: ulp_def powr_add powr_diff)
  finally have a: "\<bar>x\<bar> / ulp x < 2 ^ 53" using ulp_pos [of x] by (simp add: pos_divide_less_eq)
  have u: "0 \<le> ulp x" using ulp_pos [of x] by simp
  have "x / ulp x \<le> \<bar>x\<bar> / ulp x"
    by (rule divide_right_mono [OF _ u]) simp
  moreover have "(- \<bar>x\<bar>) / ulp x \<le> x / ulp x"
    by (rule divide_right_mono [OF _ u]) simp
  then have "- (\<bar>x\<bar> / ulp x) \<le> x / ulp x" by simp
  ultimately have "x / ulp x \<le> \<bar>x\<bar> / ulp x" and "- (\<bar>x\<bar> / ulp x) \<le> x / ulp x" by blast+
  with a have b: "x / ulp x < 2 ^ 53" "- (2 ^ 53) < x / ulp x" by linarith+
  have "x / ulp x \<le> of_int (2 ^ 53)" using b(1) by simp
  then have "round_half_even (x / ulp x) \<le> round_half_even (of_int (2 ^ 53))"
    by (rule round_half_even_mono)
  then have up: "round_half_even (x / ulp x) \<le> 2 ^ 53"
    by (simp only: round_half_even_of_int)
  have "of_int (- (2 ^ 53)) \<le> x / ulp x" using b(2) by simp
  then have "round_half_even (of_int (- (2 ^ 53))) \<le> round_half_even (x / ulp x)"
    by (rule round_half_even_mono)
  then have lo: "- (2 ^ 53) \<le> round_half_even (x / ulp x)"
    by (simp only: round_half_even_of_int)
  from up lo show ?thesis by linarith
qed

lemma binary64_idem: "binary64 (binary64 x) = binary64 x"
proof (cases "x = 0")
  case True
  then show ?thesis by simp
next
  case False
  define n where "n = round_half_even (x / ulp x)"
  define e where "e = binade x - 52"
  have b: "binary64 x = of_int n * 2 powr of_int e"
    using False by (simp add: binary64_def ulp_def n_def e_def)
  have e: "- 1074 \<le> e" using binade_ge [of x] by (simp add: e_def)
  have up: "(2::real) ^ 53 * 2 powr of_int e = 2 powr of_int (e + 53)"
    by (simp add: powr_add)
  from significand_bound [OF False] consider "\<bar>n\<bar> < 2 ^ 53" | "n = 2 ^ 53" | "n = - (2 ^ 53)"
    unfolding n_def by linarith
  then show ?thesis
  proof cases
    case 1
    from binary64_dyadic [OF 1 e] show ?thesis unfolding b .
  next
    case 2
    have "binary64 x = of_int 1 * 2 powr of_int (e + 53)"
      unfolding b 2 using up by simp
    moreover have "binary64 (of_int 1 * 2 powr of_int (e + 53)) = of_int 1 * 2 powr of_int (e + 53)"
      by (rule binary64_dyadic) (use e in simp_all)
    ultimately show ?thesis by simp
  next
    case 3
    have "binary64 x = of_int (- 1) * 2 powr of_int (e + 53)"
      unfolding b 3 using up by simp
    moreover have "binary64 (of_int (- 1) * 2 powr of_int (e + 53)) = of_int (- 1) * 2 powr of_int (e + 53)"
      by (rule binary64_dyadic) (use e in simp_all)
    ultimately show ?thesis by simp
  qed
qed

lemma is_double_binary64 [simp]: "is_double (binary64 x)"
  by (simp add: is_double_def binary64_idem)

lemma binary64_mono_pos:
  assumes "0 < x" and "x \<le> y"
  shows "binary64 x \<le> binary64 y"
proof -
  from assms have x0: "x \<noteq> 0" and y0: "y \<noteq> 0" and y: "0 < y" by simp_all
  have bx: "binary64 x = ulp x * of_int (round_half_even (x / ulp x))"
    and "by": "binary64 y = ulp y * of_int (round_half_even (y / ulp y))"
    using x0 y0 by (simp_all add: binary64_def)
  from assms have "binade x \<le> binade y" by (intro binade_mono) simp_all
  then consider "binade x = binade y" | "binade x < binade y" by linarith
  then show ?thesis
  proof cases
    case 1
    then have u: "ulp x = ulp y" by (simp add: ulp_def)
    have "x / ulp y \<le> y / ulp y" using assms(2) ulp_pos [of y] by (simp add: divide_right_mono)
    then have "round_half_even (x / ulp y) \<le> round_half_even (y / ulp y)"
      by (rule round_half_even_mono)
    then show ?thesis unfolding bx "by" u using ulp_pos [of y] by simp
  next
    case 2
    let ?B = "(2::real) powr of_int (binade y)"
    from 2 binade_ge [of x] have "- 1022 < binade y" by linarith
    from binade_le_abs [OF y0 this] y have By: "?B \<le> y" by simp
    have "x < 2 powr (of_int (binade x) + 1)"
      using abs_less_next_binade [OF x0] assms(1) by simp
    also have "\<dots> \<le> ?B"
      using 2 by (intro powr_mono) simp_all
    finally have xB: "x \<le> ?B" by simp
    have jx: "0 \<le> binade y - (binade x - 52)" using 2 by simp
    have Bx: "?B / ulp x = of_int (2 ^ nat (binade y - (binade x - 52)))"
      unfolding p2_nonneg_int [OF jx, symmetric] by (simp add: ulp_def powr_diff)
    have "x / ulp x \<le> ?B / ulp x" using xB ulp_pos [of x] by (simp add: divide_right_mono)
    then have "round_half_even (x / ulp x) \<le> round_half_even (?B / ulp x)"
      by (rule round_half_even_mono)
    then have "of_int (round_half_even (x / ulp x)) \<le> ?B / ulp x"
      unfolding Bx round_half_even_of_int by simp
    then have 1: "binary64 x \<le> ?B"
      unfolding bx using ulp_pos [of x] by (simp add: pos_le_divide_eq mult.commute)
    have Byu: "?B / ulp y = of_int (2 ^ 52)"
      by (simp add: ulp_def powr_diff)
    have "?B / ulp y \<le> y / ulp y" using By ulp_pos [of y] by (simp add: divide_right_mono)
    then have "round_half_even (?B / ulp y) \<le> round_half_even (y / ulp y)"
      by (rule round_half_even_mono)
    then have "?B / ulp y \<le> of_int (round_half_even (y / ulp y))"
      unfolding Byu round_half_even_of_int by simp
    then have 2: "?B \<le> binary64 y"
      unfolding "by" using ulp_pos [of y] by (simp add: pos_divide_le_eq mult.commute)
    from 1 2 show ?thesis by linarith
  qed
qed

lemma binary64_mono:
  assumes "x \<le> y"
  shows "binary64 x \<le> binary64 y"
proof -
  consider "0 < x" | "x \<le> 0" "0 \<le> y" | "y < 0" by linarith
  then show ?thesis
  proof cases
    case 1
    then show ?thesis using assms by (rule binary64_mono_pos)
  next
    case 2
    from 2(1) have "0 \<le> binary64 (- x)" by (intro binary64_nonneg) simp
    then have "binary64 x \<le> 0" by (simp add: binary64_uminus)
    moreover from 2(2) have "0 \<le> binary64 y" by (rule binary64_nonneg)
    ultimately show ?thesis by linarith
  next
    case 3
    then have "0 < - y" and "- y \<le> - x" using assms by simp_all
    then have "binary64 (- y) \<le> binary64 (- x)" by (rule binary64_mono_pos)
    then show ?thesis by (simp add: binary64_uminus)
  qed
qed

lemma binary64_one [simp]: "binary64 1 = 1"
  using binary64_dyadic [of 1 0] by simp

lemma is_double_of_int:
  "\<bar>m\<bar> < 2 ^ 53 \<Longrightarrow> is_double (of_int m)"
  using binary64_dyadic [of m 0] by (simp add: is_double_def)

lemma is_double_of_nat:
  "n < 2 ^ 53 \<Longrightarrow> is_double (real n)"
  using is_double_of_int [of "int n"] by simp

lemma is_double_div_pow2:
  "\<bar>m\<bar> < 2 ^ 53 \<Longrightarrow> k \<le> 1074 \<Longrightarrow> is_double (of_int m / 2 ^ k)"
  using binary64_dyadic [of m "- int k"]
  by (simp add: is_double_def powr_minus powr_realpow field_simps)



lemma binary64_numeral:
  "(numeral m :: int) < 2 ^ 53 \<Longrightarrow> binary64 (numeral m) = numeral m"
  using binary64_dyadic [of "numeral m" 0] by simp

lemma binary64_neg_numeral:
  "(numeral m :: int) < 2 ^ 53 \<Longrightarrow> binary64 (- numeral m) = - numeral m"
  using binary64_dyadic [of "- numeral m" 0] by simp

lemma tokens_a: "tokens (js ''a'') = [js ''a'']"
  by (simp add: tokens_def js_def isWhiteSpace_def)

lemma binary64_below_one:
  assumes "1 / 2 ^ k \<le> \<bar>x\<bar>" and "\<bar>x\<bar> < 2 / 2 ^ k" and "k \<le> 1022"
  shows "binary64 x = of_int (round_half_even (x * 2 ^ (k + 52))) / 2 ^ (k + 52)"
proof -
  have p: "(2::real) powr of_int (- int k) = 1 / 2 ^ k"
    by (simp add: powr_minus powr_realpow divide_inverse)
  have "(2::real) powr (of_int (- int k) + 1) = 2 powr of_int (- int k) * 2 powr 1"
    by (simp only: powr_add)
  then have "(2::real) powr (of_int (- int k) + 1) = 2 / 2 ^ k"
    unfolding p by simp
  with assms p have b: "binade x = - int k"
    by (intro binade_eqI) simp_all
  have "(0::real) < 1 / 2 ^ k" by simp
  with assms(1) have "0 < \<bar>x\<bar>" by linarith
  then have x0: "x \<noteq> 0" by simp
  have "ulp x = 2 powr (- real (k + 52))"
    by (simp add: ulp_def b)
  also have "\<dots> = inverse (2 powr real (k + 52))"
    by (rule powr_minus)
  also have "\<dots> = inverse (2 ^ (k + 52))"
    by (subst powr_realpow) simp_all
  finally have u: "ulp x = 1 / 2 ^ (k + 52)"
    by (simp add: divide_inverse)
  from x0 show ?thesis by (simp add: binary64_def u)
qed

lemma binary64_div_pow2:
  "\<bar>m\<bar> < 2 ^ 53 \<Longrightarrow> k \<le> 1074 \<Longrightarrow> binary64 (of_int m / 2 ^ k) = of_int m / 2 ^ k"
  using is_double_div_pow2 [of m k] by (simp add: is_double_def)

lemma binary64_small_values:
  "binary64 (1 / 2) = 1 / 2" "binary64 (3 / 2) = 3 / 2" "binary64 (5 / 2) = 5 / 2"
  "binary64 (3 / 4) = 3 / 4" "binary64 (9 / 8) = 9 / 8" "binary64 (- 1) = - 1"
  using binary64_div_pow2 [of 1 1] binary64_div_pow2 [of 3 1] binary64_div_pow2 [of 5 1]
    binary64_div_pow2 [of 3 2] binary64_div_pow2 [of 9 3] binary64_uminus [of 1]
  by simp_all


subsection \<open>The estimator in double precision\<close>

lemma wordDuration64_nonneg:
  assumes "0 \<le> duration segment"
  shows "0 \<le> wordDuration64 segment n w"
proof -
  have t: "0 \<le> binary64 (duration segment / real n)"
    using assms by (intro binary64_nonneg) simp
  have a: "0 \<le> binary64 (real (length (seg_text segment)) / real n)"
    by (intro binary64_nonneg) simp
  have l: "0 \<le> binary64 (real (length w) / binary64 (real (length (seg_text segment)) / real n))"
    using a by (intro binary64_nonneg) simp
  from t l have "0 \<le> binary64 (duration segment / real n)
      * binary64 (real (length w) / binary64 (real (length (seg_text segment)) / real n))"
    by (rule mult_nonneg_nonneg)
  then show ?thesis
    unfolding wordDuration64_def Let_def by (rule binary64_nonneg)
qed

lemma wordDuration64_zero:
  "duration segment = 0 \<Longrightarrow> wordDuration64 segment n w = 0"
  by (simp add: wordDuration64_def)

lemma estimate_loop64_length [simp]:
  "length (estimate_loop64 segment k n ws i c) = length ws"
  by (induction ws arbitrary: i c) auto

lemma estimate_loop64_nth:
  "j < length ws \<Longrightarrow>
   word (estimate_loop64 segment k n ws i c ! j) = ws ! j
   \<and> wend (estimate_loop64 segment k n ws i c ! j)
       = binary64 (wstart (estimate_loop64 segment k n ws i c ! j) + wordDuration64 segment n (ws ! j))"
proof (induction ws arbitrary: i c j)
  case Nil
  then show ?case by simp
next
  case (Cons w ws)
  show ?case
  proof (cases j)
    case 0
    then show ?thesis by simp
  next
    case (Suc j')
    with Cons.prems have "j' < length ws" by simp
    from Cons.IH [OF this] Suc show ?thesis by simp
  qed
qed

text \<open>The cursor is a double and never moves back when the word durations are not negative.\<close>

lemma estimate_loop64_order:
  assumes "is_double c" and "\<And>w. 0 \<le> wordDuration64 segment n w"
    and "r \<in> set (estimate_loop64 segment k n ws i c)"
  shows "c \<le> wstart r \<and> wstart r \<le> wend r"
  using assms(1,3)
proof (induction ws arbitrary: i c)
  case Nil
  then show ?case by simp
next
  case (Cons w ws)
  let ?c' = "binary64 (c + wordDuration64 segment n w)"
  have "c \<le> c + wordDuration64 segment n w" using assms(2) [of w] by simp
  then have "binary64 c \<le> ?c'" by (rule binary64_mono)
  with Cons.prems(1) have step: "c \<le> ?c'" by (simp add: is_double_def)
  from Cons.prems(2) consider "wstart r = c" "wend r = ?c'"
    | "r \<in> set (estimate_loop64 segment k n ws (Suc i) ?c')"
    by auto
  then show ?case
  proof cases
    case 1
    with step show ?thesis by simp
  next
    case 2
    have "is_double ?c'" by simp
    from Cons.IH [OF this 2] step show ?thesis by simp
  qed
qed

lemma estimate_loop64_zero_width:
  assumes "is_double c" and "\<And>w. wordDuration64 segment n w = 0"
    and "r \<in> set (estimate_loop64 segment k n ws i c)"
  shows "wend r = wstart r"
  using assms(1,3)
proof (induction ws arbitrary: i c)
  case Nil
  then show ?case by simp
next
  case (Cons w ws)
  from Cons.prems(1) have same: "binary64 (c + wordDuration64 segment n w) = c"
    by (simp add: assms(2) is_double_def)
  from Cons.prems(2) consider "wstart r = c" "wend r = c"
    | "r \<in> set (estimate_loop64 segment k n ws (Suc i) c)"
    by (auto simp: same)
  then show ?case
  proof cases
    case 1
    then show ?thesis by simp
  next
    case 2
    from Cons.IH [OF Cons.prems(1) 2] show ?thesis .
  qed
qed

lemma estimateWordTimings64_length:
  "length (estimateWordTimings64 segment k) = length (tokens (seg_text segment))"
  by (simp add: estimateWordTimings64_def Let_def)

lemma estimateWordTimings64_unfold:
  "estimateWordTimings64 segment k =
     estimate_loop64 segment k (length (tokens (seg_text segment))) (tokens (seg_text segment)) 0 (start segment)"
  by (simp add: estimateWordTimings64_def Let_def)

text \<open>
  The two embeddings of the estimator differ in the times only: the words and the
  indices are the same, and in double precision too each record ends where the next
  one starts.
\<close>

lemma estimate_loop64_same_words:
  "map (\<lambda>r. (word r, segmentIndex r, wordIndex r)) (estimate_loop64 segment k n ws i c)
     = map (\<lambda>r. (word r, segmentIndex r, wordIndex r)) (estimate_loop segment k n ws i c')"
  by (induction ws arbitrary: i c c') simp_all

lemma estimateWordTimings64_same_words:
  "map (\<lambda>r. (word r, segmentIndex r, wordIndex r)) (estimateWordTimings64 segment k)
     = map (\<lambda>r. (word r, segmentIndex r, wordIndex r)) (estimateWordTimings segment k)"
  by (simp add: estimateWordTimings64_def estimateWordTimings_def Let_def estimate_loop64_same_words)

lemma estimate_loop64_continuity:
  "Suc j < length ws \<Longrightarrow>
   wend (estimate_loop64 segment k n ws i c ! j) = wstart (estimate_loop64 segment k n ws i c ! Suc j)"
proof (induction ws arbitrary: i c j)
  case Nil
  then show ?case by simp
next
  case (Cons w ws)
  show ?case
  proof (cases j)
    case 0
    with Cons.prems show ?thesis by (cases ws) simp_all
  next
    case (Suc j')
    with Cons.prems have "Suc j' < length ws" by simp
    from Cons.IH [OF this] Suc show ?thesis by simp
  qed
qed


lemma tokens_count_le: "length (tokens s) \<le> sum_list (map length (tokens s))"
proof -
  have "length ts \<le> sum_list (map length ts)" if "\<And>p. p \<in> set ts \<Longrightarrow> 0 < length p"
    for ts :: "jsstring list"
    using that
  proof (induction ts)
    case Nil
    show ?case by simp
  next
    case (Cons p ps)
    have "0 < length p" by (rule Cons.prems) simp
    then have "1 \<le> length p" by linarith
    moreover have "length ps \<le> sum_list (map length ps)"
    proof (rule Cons.IH)
      fix q assume "q \<in> set ps"
      then show "0 < length q" by (intro Cons.prems) simp
    qed
    ultimately show ?case by simp
  qed
  then show ?thesis using tokens_lengths_pos by blast
qed

lemma avgWordLength64_ge_one:
  assumes "tokens (seg_text segment) \<noteq> []"
  shows "1 \<le> binary64 (real (length (seg_text segment)) / real (length (tokens (seg_text segment))))"
proof -
  let ?N = "length (tokens (seg_text segment))"
  from assms have n: "0 < ?N" by simp
  have "?N \<le> length (seg_text segment)"
    using tokens_count_le [of "seg_text segment"] sum_length_tokens [of "seg_text segment"] by linarith
  then have "1 \<le> real (length (seg_text segment)) / real ?N"
    using n by (simp add: pos_le_divide_eq)
  then have "binary64 1 \<le> binary64 (real (length (seg_text segment)) / real ?N)"
    by (rule binary64_mono)
  then show ?thesis by simp
qed

subsection \<open>The whole transcript in double precision\<close>




lemma record64_order:
  assumes "r \<in> set (estimateWordTimings64 segment k)"
    and "0 \<le> duration segment" and "is_double (start segment)"
  shows "start segment \<le> wstart r \<and> wstart r \<le> wend r"
  using assms(1) unfolding estimateWordTimings64_unfold
  by (rule estimate_loop64_order [OF assms(3) wordDuration64_nonneg [OF assms(2)]])


subsection \<open>Durations and ends in double precision\<close>

text \<open>
  Claim C1, as amended. With \<open>N \<ge> 1\<close> tokens, the end of the \<open>i\<close>-th record is the
  double-precision sum of its start and its word duration, and the word duration is
  \<open>timePerWord * lengthFactor\<close> with \<open>timePerWord = duration / N\<close>,
  \<open>avgWordLength = text.length / N\<close> (the length of the whole text) and
  \<open>lengthFactor = tokenLength / avgWordLength\<close>, every operation rounded to a
  double. The average is at least 1, so no division is by zero. Without rounding
  the product \<open>timePerWord * lengthFactor\<close> is the duration times the length of the
  token divided by the length of the text.
\<close>

theorem estimateWordTimings64_word_duration:
  assumes "length (tokens (seg_text segment)) = N" and "1 \<le> N" and "i < N"
  shows "wend (estimateWordTimings64 segment k ! i)
           = binary64 (wstart (estimateWordTimings64 segment k ! i)
               + binary64 (binary64 (duration segment / real N)
                   * binary64 (real (length (tokens (seg_text segment) ! i))
                       / binary64 (real (length (seg_text segment)) / real N))))
       \<and> word (estimateWordTimings64 segment k ! i) = tokens (seg_text segment) ! i
       \<and> 1 \<le> binary64 (real (length (seg_text segment)) / real N)
       \<and> 0 < length (seg_text segment)
       \<and> (duration segment / real N)
             * (real (length (tokens (seg_text segment) ! i)) / (real (length (seg_text segment)) / real N))
           = duration segment * real (length (tokens (seg_text segment) ! i))
             / real (length (seg_text segment))"
proof -
  let ?ws = "tokens (seg_text segment)"
  from assms have i: "i < length ?ws" and n: "0 < N" by simp_all
  from i have ne: "?ws \<noteq> []" by auto
  then have l: "0 < length (seg_text segment)" by (rule tokens_text_nonempty)
  from estimate_loop64_nth [OF i, of segment k N 0 "start segment"] assms(1)
  have "wend (estimateWordTimings64 segment k ! i)
           = binary64 (wstart (estimateWordTimings64 segment k ! i) + wordDuration64 segment N (?ws ! i))"
    and w: "word (estimateWordTimings64 segment k ! i) = ?ws ! i"
    by (simp_all add: estimateWordTimings64_unfold)
  then have e: "wend (estimateWordTimings64 segment k ! i)
           = binary64 (wstart (estimateWordTimings64 segment k ! i)
               + binary64 (binary64 (duration segment / real N)
                   * binary64 (real (length (?ws ! i))
                       / binary64 (real (length (seg_text segment)) / real N))))"
    by (simp add: wordDuration64_def Let_def)
  have a: "1 \<le> binary64 (real (length (seg_text segment)) / real N)"
    using avgWordLength64_ge_one [OF ne] assms(1) by simp
  have x: "(duration segment / real N)
             * (real (length (?ws ! i)) / (real (length (seg_text segment)) / real N))
           = duration segment * real (length (?ws ! i)) / real (length (seg_text segment))"
    using n l by simp
  from e w a l x show ?thesis by blast
qed

theorem estimateWordTimings64_word_duration_witness:
  "length (tokens (js ''ab c'')) = 2 \<and> (1::nat) \<le> 2 \<and> (1::nat) < 2
   \<and> wstart (estimateWordTimings64
        \<lparr>seg_text = js ''ab c'', start = 1, duration = 2, offset = None, translation = None\<rparr> 7 ! 1) = 2
   \<and> wend (estimateWordTimings64
        \<lparr>seg_text = js ''ab c'', start = 1, duration = 2, offset = None, translation = None\<rparr> 7 ! 1)
       = binary64 (2 + binary64 (binary64 (2 / 2) * binary64 (1 / binary64 (4 / 2))))
   \<and> binary64 (2 + binary64 (binary64 (2 / 2) * binary64 (1 / binary64 (4 / 2)))) = 5 / 2"
proof -
  let ?S = "\<lparr>seg_text = js ''ab c'', start = 1, duration = 2, offset = None, translation = None\<rparr>"
  have t: "tokens (js ''ab c'') = [js ''ab'', js ''c'']"
    by (simp add: tokens_def js_def isWhiteSpace_def)
  have h: "length (tokens (seg_text ?S)) = 2" by (simp add: t)
  have s: "wstart (estimateWordTimings64 ?S 7 ! 1) = 2"
    by (simp add: estimateWordTimings64_def t wordDuration64_def length_js
          binary64_numeral binary64_small_values)
  have v: "binary64 (2 + binary64 (binary64 (2 / 2) * binary64 (1 / binary64 (4 / 2)))) = 5 / 2"
    by (simp add: binary64_numeral binary64_small_values)
  from estimateWordTimings64_word_duration [OF h, of 1 7] s v t show ?thesis
    by (simp add: length_js)
qed

text \<open>
  The claim as first stated fails. For the one-word segment that starts at the double
  nearest to 0.1 and lasts the double nearest to 0.2, the word duration
  \<open>timePerWord * lengthFactor\<close> is the duration itself, but the rounded end minus
  the start is larger.
\<close>

theorem word_duration_counterexample:
  "estimateWordTimings64
      \<lparr>seg_text = js ''a'', start = binary64 (1 / 10), duration = binary64 (1 / 5),
       offset = None, translation = None\<rparr> 0
     = [\<lparr>word = js ''a'', wstart = 3602879701896397 / 36028797018963968,
         wend = 1351079888211149 / 4503599627370496, segmentIndex = 0, wordIndex = 0\<rparr>]
   \<and> binary64 (1 / 5) / 1 * (1 / (1 / 1)) = 3602879701896397 / 18014398509481984
   \<and> binary64 (binary64 (binary64 (1 / 5) / 1) * binary64 (1 / binary64 (1 / 1)))
       = 3602879701896397 / 18014398509481984
   \<and> (1351079888211149 / 4503599627370496 - 3602879701896397 / 36028797018963968 :: real)
       \<noteq> 3602879701896397 / 18014398509481984"
proof -
  have tenth: "binary64 (1 / 10) = 3602879701896397 / 36028797018963968"
    using binary64_below_one [of 4 "1 / 10"] by (simp add: round_half_even_def)
  have fifth: "binary64 (1 / 5) = 3602879701896397 / 18014398509481984"
    using binary64_below_one [of 3 "1 / 5"] by (simp add: round_half_even_def)
  have fifth': "binary64 (3602879701896397 / 18014398509481984) = 3602879701896397 / 18014398509481984"
    using binary64_idem [of "1 / 5"] by (simp only: fifth)
  have sum: "binary64 (10808639105689191 / 36028797018963968) = 1351079888211149 / 4503599627370496"
    using binary64_below_one [of 2 "10808639105689191 / 36028797018963968"]
    by (simp add: round_half_even_def)
  show ?thesis
    by (simp add: estimateWordTimings64_def tokens_a wordDuration64_def length_js
          tenth fifth fifth' sum)
qed

text \<open>
  Claim C6, as amended. For a segment of duration \<open>\<ge> 0\<close> every record has
  \<open>end \<ge> start\<close>, and a zero duration gives zero-width records. Negative
  durations are accepted too, but the inequality does not extend to them.
\<close>

theorem estimateWordTimings64_end_vs_start:
  assumes "r \<in> set (estimateWordTimings64 segment k)" and "is_double (start segment)"
  shows "(0 \<le> duration segment \<longrightarrow> wstart r \<le> wend r)
       \<and> (duration segment = 0 \<longrightarrow> wend r = wstart r)"
proof -
  have 1: "wstart r \<le> wend r" if "0 \<le> duration segment"
    using record64_order [OF assms(1) that assms(2)] by simp
  have 2: "wend r = wstart r" if "duration segment = 0"
    using assms(1) unfolding estimateWordTimings64_unfold
    by (rule estimate_loop64_zero_width [OF assms(2) wordDuration64_zero [OF that]])
  from 1 2 show ?thesis by blast
qed

theorem estimateWordTimings64_end_vs_start_witness:
  "\<lparr>word = js ''c'', wstart = 2, wend = 5 / 2, segmentIndex = 7, wordIndex = 1\<rparr>
     \<in> set (estimateWordTimings64
         \<lparr>seg_text = js ''ab c'', start = 1, duration = 2, offset = None, translation = None\<rparr> 7)
   \<and> is_double (start \<lparr>seg_text = js ''ab c'', start = 1, duration = 2, offset = None, translation = None\<rparr>)
   \<and> 0 \<le> duration \<lparr>seg_text = js ''ab c'', start = 1, duration = 2, offset = None, translation = None\<rparr>
   \<and> wstart \<lparr>word = js ''c'', wstart = 2, wend = 5 / 2, segmentIndex = 7, wordIndex = 1\<rparr>
       \<le> wend \<lparr>word = js ''c'', wstart = 2, wend = 5 / 2, segmentIndex = 7, wordIndex = 1\<rparr>"
proof -
  let ?S = "\<lparr>seg_text = js ''ab c'', start = 1, duration = 2, offset = None, translation = None\<rparr>"
  let ?r = "\<lparr>word = js ''c'', wstart = 2, wend = 5 / 2, segmentIndex = 7, wordIndex = 1\<rparr>"
  have t: "tokens (js ''ab c'') = [js ''ab'', js ''c'']"
    by (simp add: tokens_def js_def isWhiteSpace_def)
  have e: "estimateWordTimings64 ?S 7 =
      [\<lparr>word = js ''ab'', wstart = 1, wend = 2, segmentIndex = 7, wordIndex = 0\<rparr>, ?r]"
    by (simp add: estimateWordTimings64_def t wordDuration64_def length_js
          binary64_numeral binary64_small_values)
  then have m: "?r \<in> set (estimateWordTimings64 ?S 7)" by simp
  have i: "is_double (start ?S)" by (simp add: is_double_def)
  have d: "0 \<le> duration ?S" by simp
  from estimateWordTimings64_end_vs_start [OF m i] d have "wstart ?r \<le> wend ?r" by blast
  with m i d show ?thesis by blast
qed

text \<open>
  The claim as first stated fails: a one-word segment of duration \<open>-1\<close> yields a
  record that ends before it starts.
\<close>

theorem negative_duration_counterexample:
  "estimateWordTimings64
      \<lparr>seg_text = js ''a'', start = 0, duration = - 1, offset = None, translation = None\<rparr> 0
     = [\<lparr>word = js ''a'', wstart = 0, wend = - 1, segmentIndex = 0, wordIndex = 0\<rparr>]
   \<and> \<not> (wend \<lparr>word = js ''a'', wstart = 0, wend = - 1, segmentIndex = 0, wordIndex = 0\<rparr>
          \<ge> wstart \<lparr>word = js ''a'', wstart = 0, wend = - 1, segmentIndex = 0, wordIndex = 0\<rparr>)"
  by (simp add: estimateWordTimings64_def tokens_a wordDuration64_def length_js binary64_small_values)




subsection \<open>First and last word of a transcript\<close>




subsection \<open>The steps of cleanWord\<close>

lemma replace_punct_filter: "replace_punct w = filter (\<lambda>c. \<not> isStripped c) w"
  by (induction w) simp_all

lemma trim_end_Cons:
  "rev (dropWhile P (rev (x # xs))) =
     (if rev (dropWhile P (rev xs)) = [] \<and> P x then [] else x # rev (dropWhile P (rev xs)))"
  by (auto simp: dropWhile_append dropWhile_eq_Nil_conv)

lemma split_ws_Cons_not_ws:
  "\<not> isWhiteSpace c \<Longrightarrow> split_ws (c # cs) = (c # hd (split_ws cs)) # tl (split_ws cs)"
  using split_ws_nonempty [of cs] by (cases "split_ws cs") simp_all

lemma join_spaces_Cons_Cons: "join_spaces ((c # h) # rest) = c # join_spaces (h # rest)"
  by (cases rest) simp_all

lemma join_spaces_empty_first:
  "join_spaces ([] # ts) = (if ts = [] then [] else 0x20 # join_spaces ts)"
  by (cases ts) simp_all

lemma join_spaces_eq_Nil: "p \<noteq> [] \<Longrightarrow> join_spaces (p # ts) \<noteq> []"
  by (cases ts) simp_all

lemma dropWhile_starts:
  "dropWhile P xs = [] \<or> \<not> P (hd (dropWhile P xs))"
  using hd_dropWhile [of P xs] by blast

text \<open>A string that does not start with whitespace: its first piece is its first token.\<close>

lemma tokens_no_leading_ws:
  assumes "s = [] \<or> \<not> isWhiteSpace (hd s)"
  shows "join_spaces (hd (split_ws s) # filter (\<lambda>w. length w > 0) (tl (split_ws s)))
           = join_spaces (tokens s)"
    and "tokens s = [] \<longleftrightarrow> s = []"
proof -
  show "join_spaces (hd (split_ws s) # filter (\<lambda>w. length w > 0) (tl (split_ws s)))
           = join_spaces (tokens s)"
  proof (cases s)
    case Nil
    then show ?thesis by (simp add: tokens_def)
  next
    case (Cons c cs)
    with assms have "\<not> isWhiteSpace c" by simp
    then show ?thesis unfolding Cons tokens_def
      by (simp add: split_ws_Cons_not_ws del: split_ws.simps(2))
  qed
  show "tokens s = [] \<longleftrightarrow> s = []"
  proof (cases s)
    case Nil
    then show ?thesis by (simp add: tokens_def)
  next
    case (Cons c cs)
    with assms have "\<not> isWhiteSpace c" by simp
    then show ?thesis unfolding Cons tokens_def
      by (simp add: split_ws_Cons_not_ws del: split_ws.simps(2))
  qed
qed

text \<open>
  Whitespace replaced and then removed at the end: the pieces joined by single
  spaces, where the first piece stays even when it is empty.
\<close>

lemma trim_end_replace_ws:
  "rev (dropWhile isWhiteSpace (rev (replace_ws s)))
     = join_spaces (hd (split_ws s) # filter (\<lambda>w. length w > 0) (tl (split_ws s)))"
proof (induction s rule: split_ws.induct)
  case 1
  show ?case by simp
next
  case (2 c cs)
  show ?case
  proof (cases "isWhiteSpace c")
    case False
    with 2(2) show ?thesis
      by (simp add: trim_end_Cons split_ws_Cons_not_ws join_spaces_Cons_Cons
            del: rev.simps split_ws.simps(2))
  next
    case True
    let ?d = "dropWhile isWhiteSpace cs"
    have d: "?d = [] \<or> \<not> isWhiteSpace (hd ?d)" by (rule dropWhile_starts)
    have sp: "isWhiteSpace 0x20" by (simp add: isWhiteSpace_def)
    from 2(1) [OF True] tokens_no_leading_ws(1) [OF d]
    have IH: "rev (dropWhile isWhiteSpace (rev (replace_ws ?d))) = join_spaces (tokens ?d)"
      by simp
    have nil: "join_spaces (tokens ?d) = [] \<longleftrightarrow> tokens ?d = []"
    proof (cases "tokens ?d")
      case Nil
      then show ?thesis by simp
    next
      case (Cons p ps)
      then have "p \<in> set (tokens ?d)" by simp
      then have "p \<noteq> []" using tokens_lengths_pos [of p ?d] by auto
      with Cons show ?thesis by (simp add: join_spaces_eq_Nil)
    qed
    have "rev (dropWhile isWhiteSpace (rev (replace_ws (c # cs))))
        = (if tokens ?d = [] then [] else 0x20 # join_spaces (tokens ?d))"
      using True sp by (simp add: trim_end_Cons IH nil del: rev.simps)
    also have "\<dots> = join_spaces ([] # tokens ?d)"
      by (simp add: join_spaces_empty_first)
    also have "\<dots> = join_spaces (hd (split_ws (c # cs)) # filter (\<lambda>w. length w > 0) (tl (split_ws (c # cs))))"
      using True by (simp add: tokens_def)
    finally show ?thesis .
  qed
qed

lemma replace_ws_no_leading_ws:
  "s = [] \<or> \<not> isWhiteSpace (hd s) \<Longrightarrow> dropWhile isWhiteSpace (replace_ws s) = replace_ws s"
  by (cases s) auto

lemma dropWhile_replace_ws:
  "dropWhile isWhiteSpace (replace_ws s) = replace_ws (dropWhile isWhiteSpace s)"
proof (cases s)
  case Nil
  then show ?thesis by simp
next
  case (Cons c cs)
  have sp: "isWhiteSpace 0x20" by (simp add: isWhiteSpace_def)
  show ?thesis
  proof (cases "isWhiteSpace c")
    case True
    with Cons sp show ?thesis
      using replace_ws_no_leading_ws [OF dropWhile_starts [of isWhiteSpace cs]] by simp
  next
    case False
    with Cons show ?thesis by simp
  qed
qed

lemma tokens_dropWhile: "tokens (dropWhile isWhiteSpace s) = tokens s"
  by (cases s) (simp_all add: tokens_def)

text \<open>Replacing whitespace runs and trimming leaves the tokens, joined by single spaces.\<close>

lemma trim_replace_ws: "trim (replace_ws s) = join_spaces (tokens s)"
proof -
  let ?d = "dropWhile isWhiteSpace s"
  have "trim (replace_ws s) = rev (dropWhile isWhiteSpace (rev (replace_ws ?d)))"
    by (simp only: trim_def dropWhile_replace_ws)
  also have "\<dots> = join_spaces (hd (split_ws ?d) # filter (\<lambda>w. length w > 0) (tl (split_ws ?d)))"
    by (rule trim_end_replace_ws)
  also have "\<dots> = join_spaces (tokens ?d)"
    by (rule tokens_no_leading_ws(1)) (rule dropWhile_starts)
  finally show ?thesis by (simp only: tokens_dropWhile)
qed

lemma cleanWord_tokens:
  "cleanWord toLowerCase w =
     toLowerCase (join_spaces (tokens (filter (\<lambda>c. \<not> isStripped c) w)))"
  by (simp add: cleanWord_def trim_replace_ws replace_punct_filter)

subsection \<open>The shape of a cleaned string\<close>

lemma split_ws_pieces:
  "p \<in> set (split_ws s) \<Longrightarrow> c \<in> set p \<Longrightarrow> c \<in> set s \<and> \<not> isWhiteSpace c"
proof (induction s arbitrary: p rule: split_ws.induct)
  case 1
  then show ?case by simp
next
  case (2 a as)
  show ?case
  proof (cases "isWhiteSpace a")
    case True
    with "2.prems" have "p \<in> set (split_ws (dropWhile isWhiteSpace as))" by auto
    from "2.IH"(1) [OF True this "2.prems"(2)] show ?thesis
      by (auto dest: set_dropWhileD)
  next
    case False
    from "2.prems"(1) False
    have "p = a # hd (split_ws as) \<or> p \<in> set (tl (split_ws as))"
      by (simp add: split_ws_Cons_not_ws del: split_ws.simps(2))
    moreover have "hd (split_ws as) \<in> set (split_ws as)"
      using split_ws_nonempty [of as] by simp
    moreover have "set (tl (split_ws as)) \<subseteq> set (split_ws as)"
      using split_ws_nonempty [of as] by (cases "split_ws as") auto
    ultimately consider "c = a" | q where "q \<in> set (split_ws as)" and "c \<in> set q"
      using "2.prems"(2) by auto
    then show ?thesis
    proof cases
      case 1
      with False show ?thesis by simp
    next
      case 2
      from "2.IH"(2) [OF False 2] show ?thesis by simp
    qed
  qed
qed

lemma tokens_pieces:
  "p \<in> set (tokens s) \<Longrightarrow> p \<noteq> [] \<and> (\<forall>c \<in> set p. c \<in> set s \<and> \<not> isWhiteSpace c)"
  using split_ws_pieces [of p s] by (auto simp: tokens_def)

lemma set_join_spaces: "set (join_spaces ts) \<subseteq> (\<Union>p \<in> set ts. set p) \<union> {0x20}"
  by (induction ts rule: join_spaces.induct) auto

lemma hd_join_spaces: "p \<noteq> [] \<Longrightarrow> hd (join_spaces (p # ts)) = hd p"
  by (cases ts) simp_all

lemma last_join_spaces:
  "ts \<noteq> [] \<Longrightarrow> last ts \<noteq> [] \<Longrightarrow> last (join_spaces ts) = last (last ts)"
proof (induction ts rule: join_spaces.induct)
  case 1
  then show ?case by simp
next
  case (2 p)
  then show ?case by simp
next
  case (3 p q qs)
  then have "last (join_spaces (q # qs)) = last (last (q # qs))" by simp
  moreover have "join_spaces (q # qs) \<noteq> []"
    using 3(3) by (cases qs; cases q) auto
  ultimately show ?case by simp
qed

lemma successively_no_ws:
  "(\<And>c. c \<in> set p \<Longrightarrow> \<not> isWhiteSpace c) \<Longrightarrow>
   successively (\<lambda>a b. \<not> (isWhiteSpace a \<and> isWhiteSpace b)) p"
  by (induction p rule: induct_list012) auto

lemma successively_join_spaces:
  assumes "\<And>p. p \<in> set ts \<Longrightarrow> p \<noteq> [] \<and> (\<forall>c \<in> set p. \<not> isWhiteSpace c)"
  shows "successively (\<lambda>a b. \<not> (isWhiteSpace a \<and> isWhiteSpace b)) (join_spaces ts)"
  using assms
proof (induction ts rule: join_spaces.induct)
  case 1
  show ?case by simp
next
  case (2 p)
  have "\<And>c. c \<in> set p \<Longrightarrow> \<not> isWhiteSpace c"
    using 2 [of p] by simp
  then show ?case
    unfolding join_spaces.simps by (rule successively_no_ws)
next
  case (3 p q qs)
  let ?R = "\<lambda>a b. \<not> (isWhiteSpace a \<and> isWhiteSpace b)"
  have pc: "\<And>c. c \<in> set p \<Longrightarrow> \<not> isWhiteSpace c" and pne: "p \<noteq> []"
    using "3.prems" [of p] by simp_all
  from pc have p: "successively ?R p" by (rule successively_no_ws)
  from pc pne have pl: "\<not> isWhiteSpace (last p)" by simp
  have rest: "successively ?R (join_spaces (q # qs))"
    by (rule "3.IH") (use "3.prems" in auto)
  have q: "q \<noteq> []" and qh: "\<not> isWhiteSpace (hd q)"
    using "3.prems" [of q] by (auto simp: neq_Nil_conv)
  then have h: "\<not> isWhiteSpace (hd (join_spaces (q # qs)))"
    by (simp add: hd_join_spaces)
  have ne: "join_spaces (q # qs) \<noteq> []"
    using q by (rule join_spaces_eq_Nil)
  from p pl rest h ne show ?case
    by (simp add: successively_append_iff successively_Cons)
qed

lemma not_stripped_space: "\<not> isStripped 0x20"
  by (simp add: isStripped_def)

lemma whitespace_space: "isWhiteSpace 0x20"
  by (simp add: isWhiteSpace_def)

text \<open>Tokens without stripped characters, joined by single spaces, have the clean shape.\<close>

lemma clean_shape_join_tokens:
  assumes "\<And>c. c \<in> set s \<Longrightarrow> \<not> isStripped c"
  shows "clean_shape (join_spaces (tokens s))"
proof -
  let ?ts = "tokens s"
  let ?x = "join_spaces ?ts"
  have tok: "\<And>p. p \<in> set ?ts \<Longrightarrow> p \<noteq> [] \<and> (\<forall>c \<in> set p. c \<in> set s \<and> \<not> isWhiteSpace c)"
    by (rule tokens_pieces)
  have elems: "c = 0x20 \<or> (c \<in> set s \<and> \<not> isWhiteSpace c)" if "c \<in> set ?x" for c
    using that set_join_spaces [of ?ts] tok by auto
  have 1: "list_all (\<lambda>c. \<not> isStripped c) ?x"
    unfolding list_all_iff using elems assms not_stripped_space by auto
  have 2: "list_all (\<lambda>c. isWhiteSpace c = (c = 0x20)) ?x"
    unfolding list_all_iff using elems whitespace_space by auto
  have 3: "?x = [] \<or> (\<not> isWhiteSpace (hd ?x) \<and> \<not> isWhiteSpace (last ?x))"
  proof (cases ?ts)
    case Nil
    then show ?thesis by simp
  next
    case (Cons p ps)
    from Cons tok [of p] have p: "p \<noteq> []" "\<not> isWhiteSpace (hd p)" by auto
    have "last ?ts \<in> set ?ts" using Cons by simp
    from tok [OF this] have l: "last ?ts \<noteq> []" "\<not> isWhiteSpace (last (last ?ts))" by auto
    have "hd ?x = hd p" using Cons p(1) by (simp add: hd_join_spaces)
    moreover have "last ?x = last (last ?ts)"
      using Cons l(1) by (intro last_join_spaces) simp_all
    ultimately show ?thesis using p(2) l(2) by simp
  qed
  have 4: "successively (\<lambda>a b. \<not> (isWhiteSpace a \<and> isWhiteSpace b)) ?x"
    by (rule successively_join_spaces) (use tok in blast)
  from 1 2 3 4 show ?thesis by (simp add: clean_shape_def)
qed

text \<open>On a string of the clean shape the three steps before lowercasing change nothing.\<close>

lemma replace_ws_clean:
  "list_all (\<lambda>c. isWhiteSpace c = (c = 0x20)) x \<Longrightarrow>
   successively (\<lambda>a b. \<not> (isWhiteSpace a \<and> isWhiteSpace b)) x \<Longrightarrow> replace_ws x = x"
proof (induction x rule: induct_list012)
  case 1
  show ?case by simp
next
  case (2 a)
  then show ?case by simp
next
  case (3 a b bs)
  from "3.prems" have IH: "replace_ws (b # bs) = b # bs"
    by (intro "3.IH") simp_all
  show ?case
  proof (cases "isWhiteSpace a")
    case True
    with "3.prems" have "a = 0x20" and "\<not> isWhiteSpace b" by simp_all
    with True IH show ?thesis by simp
  next
    case False
    with IH show ?thesis by simp
  qed
qed

lemma trim_clean:
  "x = [] \<or> (\<not> isWhiteSpace (hd x) \<and> \<not> isWhiteSpace (last x)) \<Longrightarrow> trim x = x"
proof (cases x)
  case Nil
  then show ?thesis by (simp add: trim_def)
next
  case (Cons a as)
  assume "x = [] \<or> (\<not> isWhiteSpace (hd x) \<and> \<not> isWhiteSpace (last x))"
  with Cons have h: "\<not> isWhiteSpace (hd x)" and l: "\<not> isWhiteSpace (last x)" by simp_all
  from h Cons have 1: "dropWhile isWhiteSpace x = x" by simp
  from Cons have xne: "x \<noteq> []" by simp
  from l xne have "\<not> isWhiteSpace (hd (rev x))" by (simp add: hd_rev)
  moreover from xne have "rev x \<noteq> []" by simp
  ultimately have 2: "dropWhile isWhiteSpace (rev x) = rev x"
    by (cases "rev x") simp_all
  show ?thesis by (simp add: trim_def 1 2)
qed

lemma clean_shape_fixed:
  assumes "clean_shape x"
  shows "trim (replace_ws (replace_punct x)) = x"
proof -
  from assms have "replace_punct x = x"
    by (simp add: clean_shape_def replace_punct_filter list_all_iff)
  moreover from assms have "replace_ws x = x"
    by (intro replace_ws_clean) (simp_all add: clean_shape_def)
  moreover from assms have "trim x = x"
    by (intro trim_clean) (simp add: clean_shape_def)
  ultimately show ?thesis by simp
qed

lemma clean_shape_before_lowering:
  "clean_shape (trim (replace_ws (replace_punct w)))"
  unfolding trim_replace_ws replace_punct_filter
  by (rule clean_shape_join_tokens) simp

subsection \<open>Lowercasing ASCII\<close>

lemma ascii_lower_range:
  "0x41 \<le> c \<Longrightarrow> c \<le> 0x5A \<Longrightarrow> 0x61 \<le> c + 0x20 \<and> c + 0x20 \<le> (0x7A :: 16 word)"
  by (simp add: word_le_nat_alt unat_word_ariths)

lemma ascii_lower_cases:
  obtains "ascii_lower c = c" and "\<not> (0x41 \<le> c \<and> c \<le> 0x5A)"
  | "0x41 \<le> c" and "c \<le> 0x5A" and "0x61 \<le> ascii_lower c" and "ascii_lower c \<le> 0x7A"
  using ascii_lower_range [of c] by (cases "0x41 \<le> c \<and> c \<le> 0x5A") (auto simp: ascii_lower_def)

lemma ascii_lower_idem: "ascii_lower (ascii_lower c) = ascii_lower c"
proof (cases c rule: ascii_lower_cases)
  case 1
  then show ?thesis by simp
next
  case 2
  from 2(3) have "\<not> ascii_lower c \<le> 0x5A"
    by (simp add: word_le_nat_alt)
  then show ?thesis by (simp add: ascii_lower_def [of "ascii_lower c"])
qed

lemma ascii_lower_stripped: "isStripped (ascii_lower c) = isStripped c"
proof (cases c rule: ascii_lower_cases)
  case 1
  then show ?thesis by simp
next
  case 2
  have "\<not> isStripped c"
    using 2(1,2) by (auto simp: isStripped_def)
  moreover have "\<not> isStripped (ascii_lower c)"
    using 2(3,4) by (auto simp: isStripped_def)
  ultimately show ?thesis by simp
qed

lemma ascii_lower_ws: "isWhiteSpace (ascii_lower c) = isWhiteSpace c"
proof (cases c rule: ascii_lower_cases)
  case 1
  then show ?thesis by simp
next
  case 2
  have "\<not> isWhiteSpace c"
    using 2(1,2) by (auto simp: isWhiteSpace_def word_le_nat_alt)
  moreover have "\<not> isWhiteSpace (ascii_lower c)"
    using 2(3,4) by (auto simp: isWhiteSpace_def word_le_nat_alt)
  ultimately show ?thesis by simp
qed

lemma ascii_lower_space: "(ascii_lower c = 0x20) = (c = 0x20)"
proof (cases c rule: ascii_lower_cases)
  case 1
  then show ?thesis by simp
next
  case 2
  have "c \<noteq> 0x20" using 2(1) by auto
  moreover have "ascii_lower c \<noteq> 0x20" using 2(3) by auto
  ultimately show ?thesis by simp
qed

lemma ascii_toLowerCase_idem: "ascii_toLowerCase (ascii_toLowerCase s) = ascii_toLowerCase s"
  by (simp add: ascii_toLowerCase_def ascii_lower_idem)

lemma ascii_toLowerCase_clean_shape:
  assumes "clean_shape s"
  shows "clean_shape (ascii_toLowerCase s)"
proof -
  let ?R = "\<lambda>a b. \<not> (isWhiteSpace a \<and> isWhiteSpace b)"
  from assms have 1: "list_all (\<lambda>c. \<not> isStripped c) (map ascii_lower s)"
    by (simp add: clean_shape_def list_all_iff ascii_lower_stripped)
  from assms have 2: "list_all (\<lambda>c. isWhiteSpace c = (c = 0x20)) (map ascii_lower s)"
    by (simp add: clean_shape_def list_all_iff ascii_lower_ws ascii_lower_space)
  from assms have 3: "map ascii_lower s = [] \<or>
      (\<not> isWhiteSpace (hd (map ascii_lower s)) \<and> \<not> isWhiteSpace (last (map ascii_lower s)))"
    by (cases "s = []") (simp_all add: clean_shape_def hd_map last_map ascii_lower_ws)
  from assms have "successively ?R s" by (simp add: clean_shape_def)
  then have 4: "successively ?R (map ascii_lower s)"
    by (simp add: successively_map ascii_lower_ws)
  from 1 2 3 4 show ?thesis
    by (simp add: clean_shape_def ascii_toLowerCase_def)
qed

lemma lowers_ascii_ascii: "lowers_ascii ascii_toLowerCase"
  by (simp add: lowers_ascii_def)

subsection \<open>cleanWord\<close>

lemma lowers_asciiD:
  "lowers_ascii toLowerCase \<Longrightarrow> (\<And>c. c \<in> set s \<Longrightarrow> c < 0x80) \<Longrightarrow>
   toLowerCase s = ascii_toLowerCase s"
  by (simp add: lowers_ascii_def)

text \<open>
  Claim C8. \<open>cleanWord\<close> removes every code unit of the fixed set (the note sign
  U+266A, the double quote and the apostrophe, the square brackets, the
  parentheses, and \<^verbatim>\<open>. , ! ? ; :\<close>), leaves the tokens of what remains joined by
  single spaces, so that whitespace runs inside are one space and there is no
  whitespace at either end, and lowercases the result. With a \<^verbatim>\<open>toLowerCase\<close> that
  lowers ASCII letters, the three examples of the specification come out as stated.
\<close>

theorem cleanWord_strips_collapses_trims_lowers:
  assumes "lowers_ascii toLowerCase"
  shows "cleanWord toLowerCase w
           = toLowerCase (join_spaces (tokens (filter (\<lambda>c. \<not> isStripped c) w)))
       \<and> clean_shape (join_spaces (tokens (filter (\<lambda>c. \<not> isStripped c) w)))
       \<and> list_all isStripped (0x266A # 0x22 # js ''[]()'.,!?;:'')
       \<and> cleanWord toLowerCase (js ''Hello,'') = js ''hello''
       \<and> cleanWord toLowerCase (0x266A # js ''mmm'' @ [0x266A]) = js ''mmm''
       \<and> cleanWord toLowerCase (js ''  Multi   space  '') = js ''multi space''"
proof -
  have general: "cleanWord toLowerCase w
      = toLowerCase (join_spaces (tokens (filter (\<lambda>c. \<not> isStripped c) w)))"
    by (rule cleanWord_tokens)
  have shape: "clean_shape (join_spaces (tokens (filter (\<lambda>c. \<not> isStripped c) w)))"
    by (rule clean_shape_join_tokens) simp
  have set: "list_all isStripped (0x266A # 0x22 # js ''[]()'.,!?;:'')"
    by (simp add: js_def isStripped_def)
  have "trim (replace_ws (replace_punct (js ''Hello,''))) = js ''Hello''"
    by (simp add: trim_def js_def isStripped_def isWhiteSpace_def)
  moreover have "toLowerCase (js ''Hello'') = ascii_toLowerCase (js ''Hello'')"
    using assms by (rule lowers_asciiD) (auto simp: js_def)
  moreover have "ascii_toLowerCase (js ''Hello'') = js ''hello''"
    by (simp add: ascii_toLowerCase_def ascii_lower_def js_def)
  ultimately have ex1: "cleanWord toLowerCase (js ''Hello,'') = js ''hello''"
    by (simp add: cleanWord_def)
  have "trim (replace_ws (replace_punct (0x266A # js ''mmm'' @ [0x266A]))) = js ''mmm''"
    by (simp add: trim_def js_def isStripped_def isWhiteSpace_def)
  moreover have "toLowerCase (js ''mmm'') = ascii_toLowerCase (js ''mmm'')"
    using assms by (rule lowers_asciiD) (auto simp: js_def)
  moreover have "ascii_toLowerCase (js ''mmm'') = js ''mmm''"
    by (simp add: ascii_toLowerCase_def ascii_lower_def js_def)
  ultimately have ex2: "cleanWord toLowerCase (0x266A # js ''mmm'' @ [0x266A]) = js ''mmm''"
    by (simp add: cleanWord_def)
  have "trim (replace_ws (replace_punct (js ''  Multi   space  ''))) = js ''Multi space''"
    by (simp add: trim_def js_def isStripped_def isWhiteSpace_def)
  moreover have "toLowerCase (js ''Multi space'') = ascii_toLowerCase (js ''Multi space'')"
    using assms by (rule lowers_asciiD) (auto simp: js_def)
  moreover have "ascii_toLowerCase (js ''Multi space'') = js ''multi space''"
    by (simp add: ascii_toLowerCase_def ascii_lower_def js_def)
  ultimately have ex3: "cleanWord toLowerCase (js ''  Multi   space  '') = js ''multi space''"
    by (simp add: cleanWord_def)
  from general shape set ex1 ex2 ex3 show ?thesis by blast
qed

theorem cleanWord_strips_collapses_trims_lowers_witness:
  "lowers_ascii ascii_toLowerCase
   \<and> cleanWord ascii_toLowerCase (js ''Hello,'') = js ''hello''
   \<and> cleanWord ascii_toLowerCase (0x266A # js ''mmm'' @ [0x266A]) = js ''mmm''
   \<and> cleanWord ascii_toLowerCase (js ''  Multi   space  '') = js ''multi space''
   \<and> cleanWord ascii_toLowerCase (js '' (Oh)  [No]! '')
       = ascii_toLowerCase (join_spaces (tokens (js '' Oh  No '')))"
proof -
  have h: "lowers_ascii ascii_toLowerCase" by (rule lowers_ascii_ascii)
  have f: "filter (\<lambda>c. \<not> isStripped c) (js '' (Oh)  [No]! '') = js '' Oh  No ''"
    by (simp add: js_def isStripped_def)
  from cleanWord_strips_collapses_trims_lowers [OF h, of "js '' (Oh)  [No]! ''"] h f
  show ?thesis by simp
qed

text \<open>
  Claim C10. \<open>cleanWord\<close> is idempotent: its result has none of the stripped
  characters and no whitespace but single spaces inside, and is in lower case. The
  two facts about \<^verbatim>\<open>toLowerCase\<close> this rests on are that lowercasing twice is
  lowercasing once, and that lowercasing keeps the clean shape (it maps no character
  to whitespace or to a stripped character, and leaves the space alone).
\<close>

theorem cleanWord_idempotent:
  assumes "\<forall>s. toLowerCase (toLowerCase s) = toLowerCase s"
    and "\<forall>s. clean_shape s \<longrightarrow> clean_shape (toLowerCase s)"
  shows "cleanWord toLowerCase (cleanWord toLowerCase w) = cleanWord toLowerCase w
       \<and> clean_shape (cleanWord toLowerCase w)"
proof -
  let ?t = "trim (replace_ws (replace_punct w))"
  have "clean_shape ?t" by (rule clean_shape_before_lowering)
  with assms(2) have shape: "clean_shape (toLowerCase ?t)" by blast
  then have "trim (replace_ws (replace_punct (toLowerCase ?t))) = toLowerCase ?t"
    by (rule clean_shape_fixed)
  then have "cleanWord toLowerCase (cleanWord toLowerCase w) = toLowerCase (toLowerCase ?t)"
    by (simp add: cleanWord_def)
  also have "\<dots> = cleanWord toLowerCase w"
    using assms(1) by (simp add: cleanWord_def)
  finally show ?thesis using shape by (simp add: cleanWord_def)
qed

theorem cleanWord_idempotent_witness:
  "cleanWord ascii_toLowerCase (js '' Hello,  World! '') = js ''hello world''
   \<and> cleanWord ascii_toLowerCase (cleanWord ascii_toLowerCase (js '' Hello,  World! ''))
       = cleanWord ascii_toLowerCase (js '' Hello,  World! '')
   \<and> clean_shape (js ''hello world'')"
proof -
  have h1: "\<forall>s. ascii_toLowerCase (ascii_toLowerCase s) = ascii_toLowerCase s"
    by (simp add: ascii_toLowerCase_idem)
  have h2: "\<forall>s. clean_shape s \<longrightarrow> clean_shape (ascii_toLowerCase s)"
    by (simp add: ascii_toLowerCase_clean_shape)
  have e: "cleanWord ascii_toLowerCase (js '' Hello,  World! '') = js ''hello world''"
    by (simp add: cleanWord_def trim_def js_def isStripped_def isWhiteSpace_def
          ascii_toLowerCase_def ascii_lower_def)
  from cleanWord_idempotent [OF h1 h2, of "js '' Hello,  World! ''"] e
  show ?thesis by simp
qed

end
